theory Spec2Isabelle
  imports Complex_Main "HOL-Library.Log_Nat"
begin

section \<open>JavaScript numbers\<close>

text \<open>
  The scrubber computes with JavaScript numbers. A number is modelled as NaN, one of the
  two infinities, or a finite value. The operators of this section compute on finite values
  as exact reals; the operators that round their result to binary64 and overflow to an
  infinity follow in the section on binary64 rounding, where the scroll handler and the
  smoothing update, whose results depend on the rounding, are given with them. The sign of
  zero is not modelled. A zero divisor is taken as +0, which is what the source's only
  possibly-zero divisors are (a difference of two integers, and non-negative integer sizes).
\<close>

datatype number = NaN | PosInf | NegInf | Num real

fun js_neg :: "number \<Rightarrow> number" where
  "js_neg NaN = NaN"
| "js_neg PosInf = NegInf"
| "js_neg NegInf = PosInf"
| "js_neg (Num a) = Num (- a)"

fun js_add :: "number \<Rightarrow> number \<Rightarrow> number" where
  "js_add NaN y = NaN"
| "js_add x NaN = NaN"
| "js_add (Num a) (Num b) = Num (a + b)"
| "js_add PosInf NegInf = NaN"
| "js_add NegInf PosInf = NaN"
| "js_add PosInf y = PosInf"
| "js_add NegInf y = NegInf"
| "js_add (Num a) y = y"

definition js_sub :: "number \<Rightarrow> number \<Rightarrow> number" where
  "js_sub x y = js_add x (js_neg y)"

fun js_mul :: "number \<Rightarrow> number \<Rightarrow> number" where
  "js_mul NaN y = NaN"
| "js_mul x NaN = NaN"
| "js_mul (Num a) (Num b) = Num (a * b)"
| "js_mul (Num a) y = (if a = 0 then NaN else if 0 < a then y else js_neg y)"
| "js_mul x (Num b) = (if b = 0 then NaN else if 0 < b then x else js_neg x)"
| "js_mul PosInf y = y"
| "js_mul NegInf y = js_neg y"

fun js_div :: "number \<Rightarrow> number \<Rightarrow> number" where
  "js_div NaN y = NaN"
| "js_div x NaN = NaN"
| "js_div (Num a) (Num b) =
     (if b = 0 then (if a = 0 then NaN else if 0 < a then PosInf else NegInf)
      else Num (a / b))"
| "js_div (Num a) y = Num 0"
| "js_div x (Num b) = (if 0 \<le> b then x else js_neg x)"
| "js_div x y = NaN"

text \<open>The relational operators: every comparison with NaN is false.\<close>

fun js_lt :: "number \<Rightarrow> number \<Rightarrow> bool" where
  "js_lt NaN y = False"
| "js_lt x NaN = False"
| "js_lt (Num a) (Num b) = (a < b)"
| "js_lt x NegInf = False"
| "js_lt NegInf y = True"
| "js_lt PosInf y = False"
| "js_lt (Num a) PosInf = True"

fun js_le :: "number \<Rightarrow> number \<Rightarrow> bool" where
  "js_le NaN y = False"
| "js_le x NaN = False"
| "js_le (Num a) (Num b) = (a \<le> b)"
| "js_le NegInf y = True"
| "js_le x PosInf = True"
| "js_le x NegInf = False"
| "js_le PosInf y = False"

definition js_gt :: "number \<Rightarrow> number \<Rightarrow> bool" where
  "js_gt x y = js_lt y x"

definition js_ge :: "number \<Rightarrow> number \<Rightarrow> bool" where
  "js_ge x y = js_le y x"

text \<open>\<^verbatim>\<open>Math.min\<close>, \<^verbatim>\<open>Math.max\<close>, \<^verbatim>\<open>Math.floor\<close> and \<^verbatim>\<open>Math.round\<close>: NaN is contagious.\<close>

fun Math_min :: "number \<Rightarrow> number \<Rightarrow> number" where
  "Math_min NaN y = NaN"
| "Math_min x NaN = NaN"
| "Math_min x y = (if js_lt y x then y else x)"

fun Math_max :: "number \<Rightarrow> number \<Rightarrow> number" where
  "Math_max NaN y = NaN"
| "Math_max x NaN = NaN"
| "Math_max x y = (if js_lt x y then y else x)"

fun Math_floor :: "number \<Rightarrow> number" where
  "Math_floor (Num a) = Num (of_int \<lfloor>a\<rfloor>)"
| "Math_floor x = x"

fun Math_round :: "number \<Rightarrow> number" where
  "Math_round (Num a) = Num (of_int \<lfloor>a + 1 / 2\<rfloor>)"
| "Math_round x = x"

text \<open>Truthiness of a number (0 and NaN are falsy) and the operator \<^verbatim>\<open>||\<close> on numbers.\<close>

fun truthy :: "number \<Rightarrow> bool" where
  "truthy NaN = False"
| "truthy (Num a) = (a \<noteq> 0)"
| "truthy x = True"

definition js_or :: "number \<Rightarrow> number \<Rightarrow> number" where
  "js_or x y = (if truthy x then x else y)"

section \<open>The page environment\<close>

text \<open>
  What \<^verbatim>\<open>onScroll\<close> reads from the window and the document at a scroll event.
  \<^verbatim>\<open>scrollY\<close> and \<^verbatim>\<open>scrollTop\<close> are finite and may be fractional;
  \<^verbatim>\<open>scrollHeight\<close> and \<^verbatim>\<open>innerHeight\<close> are integers.
\<close>

record scroll_metrics =
  scrollY :: real
  scrollTop :: real
  scrollHeight :: int
  innerHeight :: int

text \<open>
  What \<^verbatim>\<open>resize\<close> reads from the window; \<open>viewHeight\<close> is \<^verbatim>\<open>window.innerHeight\<close> at
  the resize.
\<close>

record viewport =
  devicePixelRatio :: real
  innerWidth :: nat
  viewHeight :: nat

text \<open>
  An image element: its frame number (the \<^verbatim>\<open>i\<close> of \<^verbatim>\<open>FRAME_URL(i)\<close>) and its
  intrinsic size. An image whose load failed has width 0.
\<close>

record image =
  src :: nat
  width :: nat
  height :: nat

text \<open>The calls made on the 2D context, in order.\<close>

datatype draw_cmd =
    SetTransform number number number number number number
  | ClearRect number number number number
  | Save
  | DrawImage image number number number number
  | Restore

section \<open>HeroCanvas (script.js)\<close>

text \<open>
  The fields of \<^verbatim>\<open>HeroCanvas\<close>, with the parts of the page it writes: the canvas
  (backing-store size, CSS size, the numeric value of \<^verbatim>\<open>style.opacity\<close>, the context's
  call log) and the class list of the \<^verbatim>\<open>.hero\<close> element. An empty slot of
  \<^verbatim>\<open>images\<close> is \<open>None\<close>.
\<close>

record hero =
  totalFrames :: nat
  images :: "image option list"
  loaded :: nat
  currentFrame :: number
  targetFrame :: number
  ease :: number
  canvas_width :: number
  canvas_height :: number
  clientWidth :: nat
  clientHeight :: nat
  opacity :: number
  ctx :: "draw_cmd list"
  hero_classes :: "string list"

text \<open>Lines 58-60, the same in both variants of the script.\<close>

definition scrollFraction :: "scroll_metrics \<Rightarrow> number" where
  "scrollFraction m =
     (let scrollTop' = js_or (Num (scrollY m)) (Num (scrollTop m));
          maxScrollTop = js_sub (Num (of_int (scrollHeight m))) (Num (of_int (innerHeight m)))
      in Math_max (Num 0) (Math_min (Num 1) (js_div scrollTop' maxScrollTop)))"

definition onScroll :: "hero \<Rightarrow> scroll_metrics \<Rightarrow> hero" where
  "onScroll s m =
     s\<lparr>targetFrame :=
         Math_min (js_sub (Num (real (totalFrames s))) (Num 1))
                  (js_mul (scrollFraction m) (Num (real (totalFrames s))))\<rparr>"

text \<open>
  \<^verbatim>\<open>images[index]\<close>: a property read. Only an integer within the array's length names a
  slot; any other number (a fraction, a negative, NaN) reads \<^verbatim>\<open>undefined\<close>.
\<close>

definition array_get :: "'a option list \<Rightarrow> number \<Rightarrow> 'a option" where
  "array_get xs i =
     (case i of
        Num r \<Rightarrow>
          if r = of_int \<lfloor>r\<rfloor> \<and> 0 \<le> r \<and> r < real (length xs) then xs ! nat \<lfloor>r\<rfloor> else None
      | _ \<Rightarrow> None)"

text \<open>Lines 88-101 of \<^verbatim>\<open>drawFrame\<close>: (offsetX, offsetY, drawWidth, drawHeight).\<close>

definition placement :: "number \<Rightarrow> number \<Rightarrow> image \<Rightarrow> number \<times> number \<times> number \<times> number" where
  "placement cssW cssH img =
     (let canvasRatio = js_div cssW cssH;
          imgRatio = js_div (Num (real (width img))) (Num (real (height img)))
      in if js_gt canvasRatio imgRatio then
           (let drawWidth = cssW;
                drawHeight = js_div drawWidth imgRatio;
                offsetY = js_div (js_sub cssH drawHeight) (Num 2)
            in (Num 0, offsetY, drawWidth, drawHeight))
         else
           (let drawHeight = cssH;
                drawWidth = js_mul drawHeight imgRatio;
                offsetX = js_div (js_sub cssW drawWidth) (Num 2)
            in (offsetX, Num 0, drawWidth, drawHeight)))"

definition fadeThreshold :: number where
  "fadeThreshold = Num 8"

text \<open>Lines 103-110: the value whose string is assigned to \<^verbatim>\<open>canvas.style.opacity\<close>.\<close>

definition fade :: "nat \<Rightarrow> number \<Rightarrow> number" where
  "fade n index =
     (if js_le (js_sub (Num (real n)) index) fadeThreshold
      then Math_max (Num 0) (js_div (js_sub (Num (real n)) index) fadeThreshold)
      else Num 1)"

definition drawFrame :: "hero \<Rightarrow> number \<Rightarrow> hero" where
  "drawFrame s index =
     (case array_get (images s) index of
        None \<Rightarrow> s
      | Some img \<Rightarrow>
          if width img = 0 then s
          else
            (let cssW = Num (real (clientWidth s));
                 cssH = Num (real (clientHeight s));
                 (offsetX, offsetY, drawWidth, drawHeight) = placement cssW cssH img
             in s\<lparr>opacity := fade (totalFrames s) index,
                  ctx := ctx s @ [ClearRect (Num 0) (Num 0) cssW cssH, Save,
                                  DrawImage img offsetX offsetY drawWidth drawHeight, Restore]\<rparr>))"

text \<open>
  \<^verbatim>\<open>classList.add\<close>: a token already in the list is not added again. The page has an
  element of class \<^verbatim>\<open>hero\<close>, so the query of line 119 finds it.
\<close>

definition classList_add :: "string list \<Rightarrow> string \<Rightarrow> string list" where
  "classList_add cs c = (if c \<in> set cs then cs else cs @ [c])"

definition crossfadeIfEnding :: "hero \<Rightarrow> hero" where
  "crossfadeIfEnding s =
     (if js_ge (currentFrame s) (js_sub (Num (real (totalFrames s))) (Num 2))
      then s\<lparr>hero_classes := classList_add (hero_classes s) ''visible''\<rparr>
      else s)"

text \<open>
  One run of \<^verbatim>\<open>loop\<close> (lines 66-75): the smoothing update of line 68, the draw, the
  end-of-sequence check. Its last statement asks for the next animation frame, so the
  loop's runs are the animation-frame events of the page.
\<close>

definition smooth :: "hero \<Rightarrow> hero" where
  "smooth s =
     s\<lparr>currentFrame :=
         js_add (currentFrame s) (js_mul (js_sub (targetFrame s) (currentFrame s)) (ease s))\<rparr>"

definition loop :: "hero \<Rightarrow> hero" where
  "loop s =
     (let s1 = smooth s;
          s2 = drawFrame s1 (Math_floor (currentFrame s1))
      in crossfadeIfEnding s2)"

text \<open>
  \<^verbatim>\<open>resize\<close> (lines 32-40). Setting the style's width and height to the window's inner
  size gives the canvas that client size.
\<close>

definition resize :: "hero \<Rightarrow> viewport \<Rightarrow> hero" where
  "resize s v =
     (let dpr = js_or (Num (devicePixelRatio v)) (Num 1);
          s1 = s\<lparr>canvas_width := Math_round (js_mul (Num (real (innerWidth v))) dpr),
                 canvas_height := Math_round (js_mul (Num (real (viewHeight v))) dpr),
                 clientWidth := innerWidth v,
                 clientHeight := viewHeight v,
                 ctx := ctx s @ [SetTransform dpr (Num 0) (Num 0) dpr (Num 0) (Num 0)]\<rparr>
      in if array_get (images s1) (Math_floor (currentFrame s1)) \<noteq> None
         then drawFrame s1 (Math_floor (currentFrame s1))
         else s1)"

text \<open>
  The constructor's field initialisation (lines 9-15). The canvas starts with the opacity
  and the \<^verbatim>\<open>.hero\<close> element with the classes that the page gives them.
\<close>

definition HeroCanvas :: "nat \<Rightarrow> number \<Rightarrow> string list \<Rightarrow> hero" where
  "HeroCanvas n op cs =
     \<lparr>totalFrames = n, images = replicate n None, loaded = 0,
      currentFrame = Num 0, targetFrame = Num 0, ease = Num (6 / 100),
      canvas_width = Num 300, canvas_height = Num 150, clientWidth = 300, clientHeight = 150,
      opacity = op, ctx = [], hero_classes = cs\<rparr>"

section \<open>The page: preloading, then scrubbing\<close>

text \<open>
  \<^verbatim>\<open>preloadFrames\<close> makes one promise per frame and returns \<^verbatim>\<open>Promise.all\<close> of them.
  The page state holds, beside the object, which of the per-frame promises are resolved and
  how often the callback that \<^verbatim>\<open>init\<close> chains to the aggregate has run. The scroll
  listener and the render loop exist once that callback has run.
\<close>

record page =
  hero :: hero
  promises :: "bool list"
  then_runs :: nat

datatype event =
    Onload nat nat nat
  | Onerror nat
  | Resize viewport
  | Scroll scroll_metrics
  | AnimationFrame

text \<open>The callback of \<^verbatim>\<open>init\<close> (lines 25-29); \<^verbatim>\<open>bindScroll\<close> is the count going positive.\<close>

definition init_then :: "page \<Rightarrow> page" where
  "init_then p =
     p\<lparr>hero := (drawFrame (hero p) (Num 0))\<lparr>opacity := Num 1\<rparr>,
       then_runs := Suc (then_runs p)\<rparr>"

text \<open>
  \<^verbatim>\<open>resolve()\<close> of the promise of frame \<open>i\<close>: nothing on a promise already resolved;
  otherwise the promise resolves, and when it was the last one pending, the aggregate
  resolves and its callback runs.
\<close>

definition resolve :: "page \<Rightarrow> nat \<Rightarrow> page" where
  "resolve p i =
     (if i < length (promises p) \<and> \<not> promises p ! i then
        (let p1 = p\<lparr>promises := (promises p)[i := True]\<rparr>
         in if list_all (\<lambda>b. b) (promises p1) then init_then p1 else p1)
      else p)"

text \<open>The two handlers of lines 48-49, for the image of frame \<open>i\<close>.\<close>

definition onload :: "page \<Rightarrow> nat \<Rightarrow> image \<Rightarrow> page" where
  "onload p i img =
     resolve (p\<lparr>hero := (hero p)\<lparr>images := (images (hero p))[i := Some img],
                                 loaded := Suc (loaded (hero p))\<rparr>\<rparr>) i"

definition onerror :: "page \<Rightarrow> nat \<Rightarrow> image \<Rightarrow> page" where
  "onerror p i img =
     resolve (p\<lparr>hero := (hero p)\<lparr>images := (images (hero p))[i := Some img]\<rparr>\<rparr>) i"

text \<open>
  \<^verbatim>\<open>new HeroCanvas(...)\<close>: the fields, \<^verbatim>\<open>resize\<close>, and the start of the preload. With no
  frames the aggregate of no promises is resolved at once.
\<close>

definition start :: "nat \<Rightarrow> number \<Rightarrow> string list \<Rightarrow> viewport \<Rightarrow> page" where
  "start n op cs v =
     (let p = \<lparr>hero = resize (HeroCanvas n op cs) v, promises = replicate n False,
               then_runs = 0\<rparr>
      in if n = 0 then init_then p else p)"

text \<open>
  One event of the page. An image event carries the size the browser gave the element:
  a loaded image has its intrinsic size, a failed one has size 0.
\<close>

fun step :: "page \<Rightarrow> event \<Rightarrow> page" where
  "step p (Onload i w h) =
     (if i < totalFrames (hero p) then onload p i \<lparr>src = i, width = w, height = h\<rparr> else p)"
| "step p (Onerror i) =
     (if i < totalFrames (hero p) then onerror p i \<lparr>src = i, width = 0, height = 0\<rparr> else p)"
| "step p (Resize v) = p\<lparr>hero := resize (hero p) v\<rparr>"
| "step p (Scroll m) = (if 0 < then_runs p then p\<lparr>hero := onScroll (hero p) m\<rparr> else p)"
| "step p AnimationFrame = (if 0 < then_runs p then p\<lparr>hero := loop (hero p)\<rparr> else p)"

definition run :: "page \<Rightarrow> event list \<Rightarrow> page" where
  "run p es = foldl step p es"

section \<open>The direct-mapping variant of the script\<close>


section \<open>Binary64 rounding\<close>

text \<open>
  The operators above compute on exact reals. That is what the code does wherever its
  operands and results are small integers or dyadic fractions, but not in general: each
  arithmetic operation of the script rounds its result to the nearest binary64 value, ties
  to even. The definitions of this section give that rounding and the rounded operators,
  and the functions whose results depend on it are given a second time with them.

  \<open>binade x\<close> is the exponent \<open>e\<close> with \<open>2^e \<le> |x| < 2^(e+1)\<close>; below \<open>2^-1022\<close> the
  spacing is that of the subnormal numbers.
\<close>

definition binade :: "real \<Rightarrow> int" where
  "binade x =
     (let a = \<bar>x\<bar>
      in if 1 \<le> a then bitlen \<lfloor>a\<rfloor> - 1
         else if a = 0 then - 1074
         else (let k = bitlen \<lfloor>1 / a\<rfloor> - 1
               in if a * 2 powi k = 1 then - k else - k - 1))"

definition expo :: "real \<Rightarrow> int" where
  "expo x = max (binade x) (- 1022)"

definition ulp :: "real \<Rightarrow> real" where
  "ulp x = 2 powi (max (binade x) (- 1022) - 52)"

text \<open>
  Rounding to the nearest integer, ties to the even one.
\<close>

definition rne :: "real \<Rightarrow> int" where
  "rne q =
     (let f = \<lfloor>q\<rfloor>
      in if q - of_int f < 1 / 2 then f
         else if 1 / 2 < q - of_int f then f + 1
         else if even f then f else f + 1)"

definition binary64 :: "real \<Rightarrow> real" where
  "binary64 x = of_int (rne (x / ulp x)) * ulp x"

text \<open>
  A finite result is rounded; a result whose rounding reaches \<open>2^1024\<close> overflows to an
  infinity; NaN and the infinities stay as they are.
\<close>

fun round64 :: "number \<Rightarrow> number" where
  "round64 (Num a) =
     (if 2 ^ 1024 \<le> \<bar>binary64 a\<bar> then (if 0 < a then PosInf else NegInf)
      else Num (binary64 a))"
| "round64 x = x"

definition js_add64 :: "number \<Rightarrow> number \<Rightarrow> number" where
  "js_add64 x y = round64 (js_add x y)"

definition js_sub64 :: "number \<Rightarrow> number \<Rightarrow> number" where
  "js_sub64 x y = round64 (js_sub x y)"

definition js_mul64 :: "number \<Rightarrow> number \<Rightarrow> number" where
  "js_mul64 x y = round64 (js_mul x y)"

definition js_div64 :: "number \<Rightarrow> number \<Rightarrow> number" where
  "js_div64 x y = round64 (js_div x y)"

text \<open>
  Lines 58-62 of script.js with the rounded operators.
\<close>

definition scrollFraction64 :: "scroll_metrics \<Rightarrow> number" where
  "scrollFraction64 m =
     (let scrollTop' = js_or (Num (scrollY m)) (Num (scrollTop m));
          maxScrollTop = js_sub64 (Num (of_int (scrollHeight m))) (Num (of_int (innerHeight m)))
      in Math_max (Num 0) (Math_min (Num 1) (js_div64 scrollTop' maxScrollTop)))"

definition onScroll64 :: "hero \<Rightarrow> scroll_metrics \<Rightarrow> hero" where
  "onScroll64 s m =
     s\<lparr>targetFrame :=
         Math_min (js_sub64 (Num (real (totalFrames s))) (Num 1))
                  (js_mul64 (scrollFraction64 m) (Num (real (totalFrames s))))\<rparr>"

text \<open>
  Line 68 and the loop of lines 66-75 with the rounded operators.
\<close>

definition smooth64 :: "hero \<Rightarrow> hero" where
  "smooth64 s =
     s\<lparr>currentFrame :=
         js_add64 (currentFrame s)
                  (js_mul64 (js_sub64 (targetFrame s) (currentFrame s)) (ease s))\<rparr>"

definition loop64 :: "hero \<Rightarrow> hero" where
  "loop64 s =
     (let s1 = smooth64 s;
          s2 = drawFrame s1 (Math_floor (currentFrame s1))
      in crossfadeIfEnding s2)"

text \<open>
  The constructor's \<^verbatim>\<open>this.ease = 0.06\<close>: the literal denotes the binary64 value nearest to 0.06.
\<close>

definition HeroCanvas64 :: "nat \<Rightarrow> number \<Rightarrow> string list \<Rightarrow> hero" where
  "HeroCanvas64 n op cs = (HeroCanvas n op cs)\<lparr>ease := round64 (Num (6 / 100))\<rparr>"


text \<open>
  One smoothing update on finite values: the three roundings of line 68.
\<close>

definition ease_step :: "real \<Rightarrow> real \<Rightarrow> real \<Rightarrow> real" where
  "ease_step t e c = binary64 (c + binary64 (binary64 (t - c) * e))"

text \<open>
  The rounding error that one update can add to the distance from the target, for
  positions of magnitude at most \<open>M\<close>.
\<close>

definition rounding_floor :: "real \<Rightarrow> real" where
  "rounding_floor M = M / 2 ^ 53 + 3 * 2 powi (- 1075)"

section \<open>Predicates of the specification\<close>

text \<open>The scrub-state invariant: both frame positions are numbers within [0, N-1].\<close>

definition scrub_inv :: "hero \<Rightarrow> bool" where
  "scrub_inv s =
     (js_le (Num 0) (targetFrame s)
      \<and> js_le (targetFrame s) (js_sub (Num (real (totalFrames s))) (Num 1))
      \<and> js_le (Num 0) (currentFrame s)
      \<and> js_le (currentFrame s) (js_sub (Num (real (totalFrames s))) (Num 1)))"

text \<open>The frame whose fetch an event settles, if it is an image event.\<close>

fun settled_frame :: "event \<Rightarrow> nat option" where
  "settled_frame (Onload i w h) = Some i"
| "settled_frame (Onerror i) = Some i"
| "settled_frame e = None"

definition settles :: "nat \<Rightarrow> event list \<Rightarrow> bool" where
  "settles i es = (Some i \<in> set (map settled_frame es))"

text \<open>Each fetch fires one event, \<^verbatim>\<open>load\<close> or \<^verbatim>\<open>error\<close>, at most once.\<close>

definition one_event_per_frame :: "event list \<Rightarrow> bool" where
  "one_event_per_frame es = distinct (filter (\<lambda>x. x \<noteq> None) (map settled_frame es))"

text \<open>
  What holds of the page after every event: one promise and one slot per frame, and the
  callback of \<^verbatim>\<open>init\<close> has run once if every promise is resolved, not at all otherwise.
\<close>

definition page_inv :: "page \<Rightarrow> bool" where
  "page_inv p =
     (length (promises p) = totalFrames (hero p)
      \<and> length (images (hero p)) = totalFrames (hero p)
      \<and> then_runs p = (if list_all (\<lambda>b. b) (promises p) then 1 else 0))"

section \<open>Facts about the number operations\<close>

lemma js_sub_Num [simp]: "js_sub (Num a) (Num b) = Num (a - b)"
  by (simp add: js_sub_def)


lemma array_get_nat: "i < length xs \<Longrightarrow> array_get xs (Num (real i)) = xs ! i"
  by (simp add: array_get_def)

section \<open>The scroll fraction\<close>

text \<open>
  The clamp of line 60 by cases on the divisor \<^verbatim>\<open>maxScrollTop\<close>. A zero divisor with
  a zero \<^verbatim>\<open>scrollTop\<close> is 0/0: the clamp passes the NaN on.
\<close>

lemma scrollFraction_cases:
  "scrollFraction m =
     (let t = (if scrollY m \<noteq> 0 then scrollY m else scrollTop m);
          d = real_of_int (scrollHeight m - innerHeight m)
      in if d = 0 then (if t = 0 then NaN else if 0 < t then Num 1 else Num 0)
         else Num (max 0 (min 1 (t / d))))"
  by (auto simp add: scrollFraction_def js_or_def Let_def max_def min_def)

lemma scrollFraction_range: "scrollFraction m = Num f \<Longrightarrow> 0 \<le> f \<and> f \<le> 1"
  by (auto simp add: scrollFraction_cases Let_def split: if_splits)

lemma scrollFraction_shape:
  "scrollFraction m = NaN \<or> (\<exists>f. scrollFraction m = Num f \<and> 0 \<le> f \<and> f \<le> 1)"
  by (auto simp add: scrollFraction_cases Let_def split: if_splits)

lemma onScroll_target:
  "scrollFraction m = Num f \<Longrightarrow>
   targetFrame (onScroll s m) = Num (min (real (totalFrames s) - 1) (f * real (totalFrames s)))"
  by (simp add: onScroll_def min_def)

text \<open>
  C2. On a document that is not scrollable (scroll height equal to the viewport height)
  and not scrolled, the fraction is 0/0: the clamp returns NaN, not 0, and the handler
  stores NaN in \<^verbatim>\<open>targetFrame\<close>.
\<close>

theorem onScroll_unscrollable_NaN:
  "scrollFraction \<lparr>scrollY = 0, scrollTop = 0, scrollHeight = 800, innerHeight = 800\<rparr> = NaN
   \<and> targetFrame (onScroll (HeroCanvas 248 (Num 0) [])
        \<lparr>scrollY = 0, scrollTop = 0, scrollHeight = 800, innerHeight = 800\<rparr>) = NaN"
  by (simp add: onScroll_def scrollFraction_def js_or_def HeroCanvas_def)

text \<open>
  Where the clamp does guard: a negative divisor gives fraction 0 and frame 0, and every
  measurement other than 0/0 gives a target in [0, N-1].
\<close>

lemma onScroll_negative_range:
  assumes "scrollHeight m < innerHeight m" and "0 \<le> scrollY m" and "0 \<le> scrollTop m"
    and "1 \<le> totalFrames s"
  shows "scrollFraction m = Num 0 \<and> targetFrame (onScroll s m) = Num 0"
proof -
  define t where "t = (if scrollY m \<noteq> 0 then scrollY m else scrollTop m)"
  define d where "d = real_of_int (scrollHeight m - innerHeight m)"
  have d: "d < 0"
    using assms(1) by (simp add: d_def)
  have "0 \<le> t"
    using assms(2,3) by (simp add: t_def)
  then have "t / d \<le> 0"
    using d by (simp add: divide_le_0_iff)
  then have "max 0 (min 1 (t / d)) = 0"
    by simp
  moreover have "scrollFraction m = Num (max 0 (min 1 (t / d)))"
    using d unfolding scrollFraction_cases t_def d_def Let_def by simp
  ultimately have "scrollFraction m = Num 0"
    by simp
  then show ?thesis
    using assms(4) by (simp add: onScroll_target)
qed

lemma onScroll_target_bounds:
  assumes "scrollFraction m \<noteq> NaN" and "1 \<le> totalFrames s"
  shows "\<exists>t. targetFrame (onScroll s m) = Num t \<and> 0 \<le> t \<and> t \<le> real (totalFrames s) - 1"
proof -
  from assms(1) scrollFraction_shape [of m] obtain f
    where f: "scrollFraction m = Num f" "0 \<le> f" "f \<le> 1"
    by auto
  have "0 \<le> min (real (totalFrames s) - 1) (f * real (totalFrames s))"
    using f(2) assms(2) by simp
  then show ?thesis
    by (simp add: onScroll_target [OF f(1)])
qed

section \<open>Rendering a frame\<close>

lemma fade_in_range:
  "i < n \<Longrightarrow> fade n (Num (real i)) =
     (if real n - real i \<le> 8 then Num (max 0 (min 1 ((real n - real i) / 8))) else Num 1)"
  by (auto simp add: fade_def fadeThreshold_def max_def min_def)


text \<open>
  C5. For an index in [0, N-1] whose slot holds a loaded image, \<^verbatim>\<open>drawFrame\<close> sets the
  opacity to (N - index) / 8 clamped to [0,1] when N - index is at most the fade threshold 8,
  and to 1 otherwise. With N = 248 and index 244 the opacity is 0.5.
\<close>

theorem drawFrame_opacity_ramp:
  assumes "i < totalFrames s"
    and "array_get (images s) (Num (real i)) = Some img"
    and "width img \<noteq> 0"
  shows "opacity (drawFrame s (Num (real i))) =
     (if real (totalFrames s) - real i \<le> 8
      then Num (max 0 (min 1 ((real (totalFrames s) - real i) / 8)))
      else Num 1)"
  using assms
  by (simp add: drawFrame_def fade_in_range Let_def split: prod.splits)

theorem drawFrame_opacity_ramp_witness:
  "opacity (drawFrame
      ((HeroCanvas 248 (Num 0) [])
         \<lparr>images := (replicate 248 None)[244 := Some \<lparr>src = 244, width = 1920, height = 1080\<rparr>]\<rparr>)
      (Num 244)) = Num (1 / 2)"
proof -
  let ?img = "\<lparr>src = 244, width = 1920, height = 1080\<rparr>"
  let ?s = "(HeroCanvas 248 (Num 0) []) \<lparr>images := (replicate 248 None)[244 := Some ?img]\<rparr>"
  have n: "(244::nat) < totalFrames ?s"
    by (simp add: HeroCanvas_def)
  have g: "array_get (images ?s) (Num (real (244::nat))) = Some ?img"
    by (simp add: array_get_def)
  have w: "width ?img \<noteq> 0"
    by simp
  have tf: "totalFrames ?s = 248"
    by (simp add: HeroCanvas_def)
  from drawFrame_opacity_ramp [OF n g w] show ?thesis
    unfolding tf by simp
qed



text \<open>
  C7. On an index whose slot is empty, or holds the image of a failed load (width 0),
  \<^verbatim>\<open>drawFrame\<close> returns the state as it was: no call on the context, the opacity
  unchanged.
\<close>

theorem drawFrame_unavailable_noop:
  assumes "array_get (images s) index = None
           \<or> (\<exists>img. array_get (images s) index = Some img \<and> width img = 0)"
  shows "drawFrame s index = s"
  using assms by (auto simp add: drawFrame_def)

theorem drawFrame_unavailable_noop_witness:
  "drawFrame (HeroCanvas 248 (Num 0) []) (Num 0) = HeroCanvas 248 (Num 0) []
   \<and> drawFrame
       ((HeroCanvas 248 (Num 0) [])
          \<lparr>images := (replicate 248 None)[3 := Some \<lparr>src = 3, width = 0, height = 0\<rparr>]\<rparr>)
       (Num 3)
     = (HeroCanvas 248 (Num 0) [])
          \<lparr>images := (replicate 248 None)[3 := Some \<lparr>src = 3, width = 0, height = 0\<rparr>]\<rparr>"
proof -
  let ?s = "HeroCanvas 248 (Num 0) []"
  let ?img = "\<lparr>src = 3, width = 0, height = 0\<rparr>"
  let ?s' = "?s\<lparr>images := (replicate 248 None)[3 := Some ?img]\<rparr>"
  have e: "array_get (images ?s) (Num 0) = None"
    by (simp add: array_get_def HeroCanvas_def)
  have f: "array_get (images ?s') (Num 3) = Some ?img \<and> width ?img = 0"
    by (simp add: array_get_def)
  have "drawFrame ?s (Num 0) = ?s"
    using e by (intro drawFrame_unavailable_noop) simp
  moreover have "drawFrame ?s' (Num 3) = ?s'"
    using f by (intro drawFrame_unavailable_noop) blast
  ultimately show ?thesis
    by simp
qed

section \<open>What one run of the loop leaves alone\<close>

lemma drawFrame_scrub [simp]:
  "currentFrame (drawFrame s i) = currentFrame s"
  "targetFrame (drawFrame s i) = targetFrame s"
  "ease (drawFrame s i) = ease s"
  "totalFrames (drawFrame s i) = totalFrames s"
  "images (drawFrame s i) = images s"
  "hero_classes (drawFrame s i) = hero_classes s"
  by (simp_all add: drawFrame_def Let_def split: option.splits prod.splits)

lemma crossfadeIfEnding_scrub [simp]:
  "currentFrame (crossfadeIfEnding s) = currentFrame s"
  "targetFrame (crossfadeIfEnding s) = targetFrame s"
  "ease (crossfadeIfEnding s) = ease s"
  "totalFrames (crossfadeIfEnding s) = totalFrames s"
  "images (crossfadeIfEnding s) = images s"
  by (simp_all add: crossfadeIfEnding_def)

lemma smooth_scrub [simp]:
  "targetFrame (smooth s) = targetFrame s"
  "ease (smooth s) = ease s"
  "totalFrames (smooth s) = totalFrames s"
  "images (smooth s) = images s"
  "hero_classes (smooth s) = hero_classes s"
  by (simp_all add: smooth_def)

lemma loop_scrub [simp]:
  "currentFrame (loop s) = currentFrame (smooth s)"
  "targetFrame (loop s) = targetFrame s"
  "ease (loop s) = ease s"
  "totalFrames (loop s) = totalFrames s"
  "images (loop s) = images s"
  by (simp_all add: loop_def Let_def)

lemma smooth_Num:
  "targetFrame s = Num t \<Longrightarrow> currentFrame s = Num c \<Longrightarrow> ease s = Num e \<Longrightarrow>
   currentFrame (smooth s) = Num (c + (t - c) * e)"
  by (simp add: smooth_def)

lemma onScroll_scrub [simp]:
  "currentFrame (onScroll s m) = currentFrame s"
  "ease (onScroll s m) = ease s"
  "totalFrames (onScroll s m) = totalFrames s"
  "images (onScroll s m) = images s"
  "hero_classes (onScroll s m) = hero_classes s"
  by (simp_all add: onScroll_def)

section \<open>Temporal smoothing\<close>

text \<open>The decay factor after \<open>n\<close> runs is below the exponential of \<open>- n * ease\<close>.\<close>

lemma decay_bound:
  fixes e :: real
  assumes "0 < e" "e < 1"
  shows "(1 - e) ^ n \<le> exp (- (real n * e))"
proof -
  have "1 - e \<le> exp (- e)"
    using exp_ge_add_one_self [of "- e"] by simp
  then have "(1 - e) ^ n \<le> exp (- e) ^ n"
    using assms by (intro power_mono) simp_all
  also have "exp (- e) ^ n = exp (- (real n * e))"
    by (simp add: exp_of_nat_mult [symmetric])
  finally show ?thesis .
qed

lemma within_eps:
  fixes e d eps :: real
  assumes "0 < e" "e < 1" "0 \<le> d" "0 < eps" "ln (d / eps) < real n * e"
  shows "d * (1 - e) ^ n < eps"
proof (cases "d = 0")
  case True
  then show ?thesis using assms(4) by simp
next
  case False
  then have dpos: "0 < d" using assms(3) by simp
  then have "0 < d / eps" using assms(4) by simp
  then have "d / eps < exp (real n * e)"
    using assms(5) by (metis exp_less_cancel_iff exp_ln)
  then have "d < eps * exp (real n * e)"
    using assms(4) by (simp add: pos_divide_less_eq mult.commute)
  then have "d / exp (real n * e) < eps"
    by (simp add: pos_divide_less_eq)
  then have "d * exp (- (real n * e)) < eps"
    by (simp add: exp_minus divide_inverse)
  moreover have "d * (1 - e) ^ n \<le> d * exp (- (real n * e))"
    using decay_bound [OF assms(1,2)] dpos by simp
  ultimately show ?thesis by linarith
qed

section \<open>The scrub-state invariant\<close>

text \<open>
  The invariant holds after construction, the scroll handler keeps it on every measurement
  whose fraction is a number, and a run of the loop keeps it for an ease in (0,1).
\<close>

lemma js_le_between:
  "js_le (Num a) x \<Longrightarrow> js_le x (Num b) \<Longrightarrow> \<exists>r. x = Num r \<and> a \<le> r \<and> r \<le> b"
  by (cases x) auto

lemma scrub_inv_iff:
  "scrub_inv s =
     (\<exists>t c. targetFrame s = Num t \<and> currentFrame s = Num c
        \<and> 0 \<le> t \<and> t \<le> real (totalFrames s) - 1 \<and> 0 \<le> c \<and> c \<le> real (totalFrames s) - 1)"
proof
  assume "scrub_inv s"
  then have "js_le (Num 0) (targetFrame s)"
    and "js_le (targetFrame s) (Num (real (totalFrames s) - 1))"
    and "js_le (Num 0) (currentFrame s)"
    and "js_le (currentFrame s) (Num (real (totalFrames s) - 1))"
    by (simp_all add: scrub_inv_def)
  then show "\<exists>t c. targetFrame s = Num t \<and> currentFrame s = Num c
        \<and> 0 \<le> t \<and> t \<le> real (totalFrames s) - 1 \<and> 0 \<le> c \<and> c \<le> real (totalFrames s) - 1"
    using js_le_between by blast
next
  assume "\<exists>t c. targetFrame s = Num t \<and> currentFrame s = Num c
        \<and> 0 \<le> t \<and> t \<le> real (totalFrames s) - 1 \<and> 0 \<le> c \<and> c \<le> real (totalFrames s) - 1"
  then show "scrub_inv s"
    by (auto simp add: scrub_inv_def)
qed

lemma scrub_inv_HeroCanvas: "1 \<le> n \<Longrightarrow> scrub_inv (HeroCanvas n op cs)"
  by (simp add: scrub_inv_def HeroCanvas_def)

lemma scrub_inv_onScroll:
  assumes "scrub_inv s" and "scrollFraction m \<noteq> NaN" and "1 \<le> totalFrames s"
  shows "scrub_inv (onScroll s m)"
proof -
  from onScroll_target_bounds [OF assms(2,3)] obtain t
    where "targetFrame (onScroll s m) = Num t" "0 \<le> t" "t \<le> real (totalFrames s) - 1"
    by blast
  then show ?thesis
    using assms(1) unfolding scrub_inv_iff by auto
qed

lemma convex_step:
  fixes c t e b :: real
  assumes "0 \<le> c" "c \<le> b" "0 \<le> t" "t \<le> b" "0 < e" "e < 1"
  shows "0 \<le> c + (t - c) * e \<and> c + (t - c) * e \<le> b"
proof -
  have eq: "c + (t - c) * e = (1 - e) * c + e * t"
    by (simp add: algebra_simps)
  have "0 \<le> (1 - e) * c" and "0 \<le> e * t"
    using assms by simp_all
  moreover have "(1 - e) * c \<le> (1 - e) * b" and "e * t \<le> e * b"
    using assms by (simp_all add: mult_left_mono)
  moreover have "(1 - e) * b + e * b = b"
    by (simp add: algebra_simps)
  ultimately show ?thesis
    unfolding eq by linarith
qed

lemma scrub_inv_loop:
  assumes "scrub_inv s" and "ease s = Num e" and "0 < e" and "e < 1"
  shows "scrub_inv (loop s)"
proof -
  from assms(1) obtain t c where tc: "targetFrame s = Num t" "currentFrame s = Num c"
    "0 \<le> t" "t \<le> real (totalFrames s) - 1" "0 \<le> c" "c \<le> real (totalFrames s) - 1"
    unfolding scrub_inv_iff by blast
  have "currentFrame (loop s) = Num (c + (t - c) * e)"
    using tc(1,2) assms(2) by (simp add: smooth_Num)
  moreover have "0 \<le> c + (t - c) * e \<and> c + (t - c) * e \<le> real (totalFrames s) - 1"
    using tc(3-6) assms(3,4) by (intro convex_step) simp_all
  ultimately show ?thesis
    using tc(1,3,4) unfolding scrub_inv_iff by simp
qed

text \<open>
  A NaN target makes the position NaN at the next run of the loop, and a NaN position
  stays NaN under every later event.
\<close>

lemma NaN_target_spreads: "targetFrame s = NaN \<Longrightarrow> currentFrame (loop s) = NaN"
  by (cases "currentFrame s") (simp_all add: smooth_def js_sub_def)

lemma NaN_position_stays: "currentFrame s = NaN \<Longrightarrow> currentFrame (loop s) = NaN"
  by (simp add: smooth_def)

section \<open>The page's events\<close>

lemma resize_scrub [simp]:
  "currentFrame (resize s v) = currentFrame s"
  "targetFrame (resize s v) = targetFrame s"
  "ease (resize s v) = ease s"
  "totalFrames (resize s v) = totalFrames s"
  "images (resize s v) = images s"
  "hero_classes (resize s v) = hero_classes s"
  by (simp_all add: resize_def Let_def)

lemma init_then_fields [simp]:
  "promises (init_then p) = promises p"
  "then_runs (init_then p) = Suc (then_runs p)"
  "currentFrame (hero (init_then p)) = currentFrame (hero p)"
  "totalFrames (hero (init_then p)) = totalFrames (hero p)"
  "images (hero (init_then p)) = images (hero p)"
  "hero_classes (hero (init_then p)) = hero_classes (hero p)"
  by (simp_all add: init_then_def)

lemma resolve_hero [simp]:
  "currentFrame (hero (resolve p i)) = currentFrame (hero p)"
  "totalFrames (hero (resolve p i)) = totalFrames (hero p)"
  "images (hero (resolve p i)) = images (hero p)"
  "hero_classes (hero (resolve p i)) = hero_classes (hero p)"
  by (simp_all add: resolve_def Let_def)

lemma classList_add_mono: "c \<in> set cs \<Longrightarrow> c \<in> set (classList_add cs c')"
  by (simp add: classList_add_def)

lemma classList_add_idem: "c \<in> set cs \<Longrightarrow> classList_add cs c = cs"
  by (simp add: classList_add_def)

lemma crossfadeIfEnding_keeps:
  "c \<in> set (hero_classes s) \<Longrightarrow> c \<in> set (hero_classes (crossfadeIfEnding s))"
  by (simp add: crossfadeIfEnding_def classList_add_mono)

lemma loop_keeps: "c \<in> set (hero_classes s) \<Longrightarrow> c \<in> set (hero_classes (loop s))"
  by (simp add: loop_def Let_def crossfadeIfEnding_keeps)

lemma crossfadeIfEnding_signals:
  "js_ge (currentFrame s) (js_sub (Num (real (totalFrames s))) (Num 2)) \<Longrightarrow>
   ''visible'' \<in> set (hero_classes (crossfadeIfEnding s))"
  by (simp add: crossfadeIfEnding_def classList_add_def)

lemma loop_signals:
  assumes "js_ge (currentFrame (loop s)) (js_sub (Num (real (totalFrames s))) (Num 2))"
  shows "''visible'' \<in> set (hero_classes (loop s))"
proof -
  let ?s2 = "drawFrame (smooth s) (Math_floor (currentFrame (smooth s)))"
  have l: "loop s = crossfadeIfEnding ?s2"
    by (simp add: loop_def Let_def)
  have "js_ge (currentFrame ?s2) (js_sub (Num (real (totalFrames ?s2))) (Num 2))"
    using assms by simp
  then show ?thesis
    unfolding l by (rule crossfadeIfEnding_signals)
qed

lemma step_keeps:
  "c \<in> set (hero_classes (hero p)) \<Longrightarrow> c \<in> set (hero_classes (hero (step p ev)))"
  by (cases ev) (simp_all add: onload_def onerror_def loop_keeps)

lemma run_keeps:
  "c \<in> set (hero_classes (hero p)) \<Longrightarrow> c \<in> set (hero_classes (hero (run p es)))"
  unfolding run_def by (induction es arbitrary: p) (simp_all add: step_keeps)

lemma step_NaN:
  "currentFrame (hero p) = NaN \<Longrightarrow> currentFrame (hero (step p ev)) = NaN"
  by (cases ev) (simp_all add: onload_def onerror_def smooth_def)

lemma run_NaN:
  "currentFrame (hero p) = NaN \<Longrightarrow> currentFrame (hero (run p es)) = NaN"
  unfolding run_def by (induction es arbitrary: p) (simp_all add: step_NaN)

text \<open>
  C4. The invariant holds after construction, but a scroll event on a document that is as
  tall as the viewport stores NaN in \<^verbatim>\<open>targetFrame\<close>, and the next run of the loop
  stores NaN in \<^verbatim>\<open>currentFrame\<close>: neither is within [0, N-1] any more.
\<close>

theorem scrub_invariant_broken:
  "scrub_inv (HeroCanvas 248 (Num 0) [])
   \<and> \<not> scrub_inv (onScroll (HeroCanvas 248 (Num 0) [])
          \<lparr>scrollY = 0, scrollTop = 0, scrollHeight = 800, innerHeight = 800\<rparr>)
   \<and> currentFrame (loop (onScroll (HeroCanvas 248 (Num 0) [])
          \<lparr>scrollY = 0, scrollTop = 0, scrollHeight = 800, innerHeight = 800\<rparr>)) = NaN
   \<and> \<not> scrub_inv (loop (onScroll (HeroCanvas 248 (Num 0) [])
          \<lparr>scrollY = 0, scrollTop = 0, scrollHeight = 800, innerHeight = 800\<rparr>))"
proof -
  let ?m = "\<lparr>scrollY = 0, scrollTop = 0, scrollHeight = 800, innerHeight = 800\<rparr>"
  let ?s = "HeroCanvas 248 (Num 0) []"
  have a: "scrub_inv ?s"
    by (simp add: scrub_inv_HeroCanvas)
  have t: "targetFrame (onScroll ?s ?m) = NaN"
    by (simp add: onScroll_def scrollFraction_def js_or_def HeroCanvas_def)
  then have b: "\<not> scrub_inv (onScroll ?s ?m)"
    by (simp add: scrub_inv_def)
  have c: "currentFrame (loop (onScroll ?s ?m)) = NaN"
    using t by (rule NaN_target_spreads)
  then have d: "\<not> scrub_inv (loop (onScroll ?s ?m))"
    unfolding scrub_inv_def c by simp
  show ?thesis
    using a b c d by blast
qed

text \<open>
  C9. When an animation frame leaves \<^verbatim>\<open>currentFrame\<close> at N - 2 or more, the class
  \<^verbatim>\<open>visible\<close> is on the \<^verbatim>\<open>.hero\<close> element, and it is still there after every later
  sequence of events, scrolls back to the top included. On an element that already has the
  class, adding it again changes nothing.
\<close>

theorem visible_is_one_way:
  "(0 < then_runs p
      \<and> js_ge (currentFrame (hero (step p AnimationFrame)))
               (js_sub (Num (real (totalFrames (hero p)))) (Num 2))
     \<longrightarrow> ''visible'' \<in> set (hero_classes (hero (step p AnimationFrame)))
       \<and> ''visible'' \<in> set (hero_classes (hero (run (step p AnimationFrame) es))))
   \<and> (''visible'' \<in> set (hero_classes (hero p))
     \<longrightarrow> ''visible'' \<in> set (hero_classes (hero (run p es)))
       \<and> hero_classes (crossfadeIfEnding (hero p)) = hero_classes (hero p))"
proof -
  have a: "0 < then_runs p
      \<and> js_ge (currentFrame (hero (step p AnimationFrame)))
               (js_sub (Num (real (totalFrames (hero p)))) (Num 2))
     \<longrightarrow> ''visible'' \<in> set (hero_classes (hero (step p AnimationFrame)))
       \<and> ''visible'' \<in> set (hero_classes (hero (run (step p AnimationFrame) es)))"
  proof
    assume h: "0 < then_runs p
      \<and> js_ge (currentFrame (hero (step p AnimationFrame)))
               (js_sub (Num (real (totalFrames (hero p)))) (Num 2))"
    then have st: "hero (step p AnimationFrame) = loop (hero p)"
      by simp
    have "''visible'' \<in> set (hero_classes (loop (hero p)))"
      using h unfolding st by (intro loop_signals) simp
    then have v: "''visible'' \<in> set (hero_classes (hero (step p AnimationFrame)))"
      unfolding st .
    then show "''visible'' \<in> set (hero_classes (hero (step p AnimationFrame)))
       \<and> ''visible'' \<in> set (hero_classes (hero (run (step p AnimationFrame) es)))"
      by (simp add: run_keeps)
  qed
  have b: "''visible'' \<in> set (hero_classes (hero p))
     \<longrightarrow> ''visible'' \<in> set (hero_classes (hero (run p es)))
       \<and> hero_classes (crossfadeIfEnding (hero p)) = hero_classes (hero p)"
    by (simp add: run_keeps crossfadeIfEnding_def classList_add_idem)
  show ?thesis
    using a b by blast
qed

theorem visible_is_one_way_witness:
  "''visible'' \<in> set (hero_classes (hero (run
      \<lparr>hero = (HeroCanvas 248 (Num 1) [''hero''])\<lparr>currentFrame := Num 246, targetFrame := Num 247\<rparr>,
       promises = replicate 248 True, then_runs = 1\<rparr>
      [AnimationFrame,
       Scroll \<lparr>scrollY = 0, scrollTop = 0, scrollHeight = 1800, innerHeight = 800\<rparr>,
       AnimationFrame])))
   \<and> js_lt (currentFrame (hero (run
      \<lparr>hero = (HeroCanvas 248 (Num 1) [''hero''])\<lparr>currentFrame := Num 246, targetFrame := Num 247\<rparr>,
       promises = replicate 248 True, then_runs = 1\<rparr>
      [AnimationFrame,
       Scroll \<lparr>scrollY = 0, scrollTop = 0, scrollHeight = 1800, innerHeight = 800\<rparr>,
       AnimationFrame])))
      (Num 246)
   \<and> ''visible'' \<in> set (hero_classes (hero (run
      \<lparr>hero = HeroCanvas 248 (Num 1) [''hero'', ''visible''],
       promises = replicate 248 True, then_runs = 1\<rparr>
      [Scroll \<lparr>scrollY = 0, scrollTop = 0, scrollHeight = 1800, innerHeight = 800\<rparr>,
       AnimationFrame])))
   \<and> hero_classes (crossfadeIfEnding (HeroCanvas 248 (Num 1) [''hero'', ''visible'']))
       = [''hero'', ''visible'']"
proof -
  let ?m = "\<lparr>scrollY = 0, scrollTop = 0, scrollHeight = 1800, innerHeight = 800\<rparr>"
  let ?p = "\<lparr>hero = (HeroCanvas 248 (Num 1) [''hero''])\<lparr>currentFrame := Num 246, targetFrame := Num 247\<rparr>,
       promises = replicate 248 True, then_runs = 1\<rparr>"
  let ?q = "\<lparr>hero = HeroCanvas 248 (Num 1) [''hero'', ''visible''],
       promises = replicate 248 True, then_runs = 1\<rparr>"
  have r: "run ?p [AnimationFrame, Scroll ?m, AnimationFrame]
      = run (step ?p AnimationFrame) [Scroll ?m, AnimationFrame]"
    by (simp add: run_def)
  have c1: "currentFrame (hero (step ?p AnimationFrame)) = Num (24606 / 100)"
    by (simp add: smooth_def HeroCanvas_def)
  have h: "0 < then_runs ?p
      \<and> js_ge (currentFrame (hero (step ?p AnimationFrame)))
               (js_sub (Num (real (totalFrames (hero ?p)))) (Num 2))"
    unfolding c1 by (simp add: js_ge_def HeroCanvas_def)
  from visible_is_one_way [of ?p "[Scroll ?m, AnimationFrame]"] h
  have v: "''visible'' \<in> set (hero_classes (hero (run (step ?p AnimationFrame) [Scroll ?m, AnimationFrame])))"
    by blast
  have f: "scrollFraction ?m = Num 0"
    by (simp add: scrollFraction_def js_or_def)
  have c2: "currentFrame (hero (run (step ?p AnimationFrame) [Scroll ?m, AnimationFrame]))
      = Num (24606 / 100 + (0 - 24606 / 100) * (6 / 100))"
    using c1 by (simp add: run_def smooth_def onScroll_target [OF f] HeroCanvas_def)
  have lt: "js_lt (currentFrame (hero (run (step ?p AnimationFrame) [Scroll ?m, AnimationFrame])))
      (Num 246)"
    unfolding c2 by simp
  have already: "''visible'' \<in> set (hero_classes (hero ?q))"
    by (simp add: HeroCanvas_def)
  have hq: "hero ?q = HeroCanvas 248 (Num 1) [''hero'', ''visible'']"
    and cq: "hero_classes (HeroCanvas 248 (Num 1) [''hero'', ''visible'']) = [''hero'', ''visible'']"
    by (simp_all add: HeroCanvas_def)
  from visible_is_one_way [of ?q "[Scroll ?m, AnimationFrame]"] already
  have w: "''visible'' \<in> set (hero_classes (hero (run ?q [Scroll ?m, AnimationFrame])))
      \<and> hero_classes (crossfadeIfEnding (hero ?q)) = hero_classes (hero ?q)"
    by blast
  then have w': "''visible'' \<in> set (hero_classes (hero (run ?q [Scroll ?m, AnimationFrame])))
      \<and> hero_classes (crossfadeIfEnding (HeroCanvas 248 (Num 1) [''hero'', ''visible'']))
          = [''hero'', ''visible'']"
    unfolding hq cq .
  show ?thesis
    unfolding r using v lt w' by blast
qed

section \<open>Preloading\<close>

lemma resolved_update: "i < length ps \<Longrightarrow> ps ! i \<Longrightarrow> ps[i := True] = ps"
  by (simp add: list_update_same_conv)

lemma resolve_promises:
  "promises (resolve p i) = (if i < length (promises p) then (promises p)[i := True] else promises p)"
  by (auto simp add: resolve_def Let_def resolved_update)

lemma resolve_then_runs:
  "then_runs (resolve p i) =
     (if i < length (promises p) \<and> \<not> promises p ! i \<and> list_all (\<lambda>b. b) ((promises p)[i := True])
      then Suc (then_runs p) else then_runs p)"
  by (simp add: resolve_def Let_def)

lemma pending_not_all: "i < length ps \<Longrightarrow> \<not> ps ! i \<Longrightarrow> \<not> list_all (\<lambda>b. b) ps"
  by (auto simp add: list_all_length)

lemma resolve_inv:
  assumes "page_inv p"
  shows "page_inv (resolve p i)"
proof (cases "i < length (promises p)")
  case False
  then show ?thesis using assms by (simp add: resolve_def)
next
  case True
  show ?thesis
  proof (cases "promises p ! i")
    case True
    then show ?thesis using assms by (simp add: resolve_def)
  next
    case False
    with True have "\<not> list_all (\<lambda>b. b) (promises p)"
      by (rule pending_not_all)
    then have "then_runs p = 0"
      using assms by (simp add: page_inv_def)
    then show ?thesis
      using assms True False
      by (simp add: page_inv_def resolve_promises resolve_then_runs)
  qed
qed

lemma step_totalFrames [simp]: "totalFrames (hero (step p ev)) = totalFrames (hero p)"
  by (cases ev) (simp_all add: onload_def onerror_def)

lemma step_inv: "page_inv p \<Longrightarrow> page_inv (step p ev)"
proof (cases ev)
  case (Onload i w h)
  assume a: "page_inv p"
  let ?q = "p\<lparr>hero := (hero p)\<lparr>images := (images (hero p))[i := Some \<lparr>src = i, width = w, height = h\<rparr>],
                                 loaded := Suc (loaded (hero p))\<rparr>\<rparr>"
  have "page_inv ?q" using a by (simp add: page_inv_def)
  then have "page_inv (resolve ?q i)" by (rule resolve_inv)
  then show ?thesis using a Onload by (simp add: onload_def)
next
  case (Onerror i)
  assume a: "page_inv p"
  let ?q = "p\<lparr>hero := (hero p)\<lparr>images := (images (hero p))[i := Some \<lparr>src = i, width = 0, height = 0\<rparr>]\<rparr>\<rparr>"
  have "page_inv ?q" using a by (simp add: page_inv_def)
  then have "page_inv (resolve ?q i)" by (rule resolve_inv)
  then show ?thesis using a Onerror by (simp add: onerror_def)
next
  case (Resize v)
  assume "page_inv p"
  then show ?thesis using Resize by (simp add: page_inv_def)
next
  case (Scroll m)
  assume "page_inv p"
  then show ?thesis using Scroll by (simp add: page_inv_def)
next
  case AnimationFrame
  assume "page_inv p"
  then show ?thesis using AnimationFrame by (simp add: page_inv_def)
qed

lemma run_snoc: "run p (es @ [e]) = step (run p es) e"
  by (simp add: run_def)

lemma run_Nil: "run p [] = p"
  by (simp add: run_def)

lemma run_inv: "page_inv p \<Longrightarrow> page_inv (run p es)"
  by (induction es rule: rev_induct) (simp_all add: run_snoc run_Nil step_inv)

lemma run_totalFrames [simp]: "totalFrames (hero (run p es)) = totalFrames (hero p)"
  by (induction es rule: rev_induct) (simp_all add: run_snoc run_Nil)

lemma start_fields:
  "totalFrames (hero (start n op cs v)) = n"
  "promises (start n op cs v) = replicate n False"
  "images (hero (start n op cs v)) = replicate n None"
  "then_runs (start n op cs v) = (if n = 0 then 1 else 0)"
  by (simp_all add: start_def Let_def HeroCanvas_def)

lemma start_inv: "page_inv (start n op cs v)"
  by (cases n) (simp_all add: page_inv_def start_fields)

lemma step_promises:
  "promises (step p ev) =
     (case settled_frame ev of
        Some i \<Rightarrow> if i < totalFrames (hero p) \<and> i < length (promises p)
                  then (promises p)[i := True] else promises p
      | None \<Rightarrow> promises p)"
  by (cases ev) (simp_all add: onload_def onerror_def resolve_promises)

lemma settles_snoc: "settles i (es @ [e]) = (settles i es \<or> settled_frame e = Some i)"
  by (auto simp add: settles_def)

lemma settles_Nil: "\<not> settles i []"
  by (simp add: settles_def)

lemma run_promises:
  assumes "page_inv p" and "i < totalFrames (hero p)"
  shows "promises (run p es) ! i = (promises p ! i \<or> settles i es)"
proof (induction es rule: rev_induct)
  case Nil
  show ?case by (simp add: run_Nil settles_Nil)
next
  case (snoc e es)
  have inv: "page_inv (run p es)"
    using assms(1) by (rule run_inv)
  then have len: "length (promises (run p es)) = totalFrames (hero p)"
    by (simp add: page_inv_def)
  show ?case
  proof (cases "settled_frame e")
    case None
    then show ?thesis
      using snoc by (simp add: run_snoc step_promises settles_snoc)
  next
    case (Some j)
    then show ?thesis
      using snoc len assms(2)
      by (cases "j = i") (auto simp add: run_snoc step_promises settles_snoc nth_list_update)
  qed
qed

lemma start_promises:
  "i < n \<Longrightarrow> promises (run (start n op cs v) es) ! i = settles i es"
  using run_promises [OF start_inv, of i n op cs v es] by (simp add: start_fields)

lemma start_then_runs:
  "then_runs (run (start n op cs v) es) = (if \<forall>i<n. settles i es then 1 else 0)"
proof -
  let ?p = "run (start n op cs v) es"
  have inv: "page_inv ?p"
    using start_inv by (rule run_inv)
  then have len: "length (promises ?p) = n"
    by (simp add: page_inv_def start_fields)
  have "list_all (\<lambda>b. b) (promises ?p) = (\<forall>i<n. settles i es)"
    using len by (simp add: list_all_length start_promises)
  then show ?thesis
    using inv by (simp add: page_inv_def)
qed

lemma onload_images [simp]:
  "images (hero (onload p i img)) = (images (hero p))[i := Some img]"
  by (simp add: onload_def)

lemma onerror_images [simp]:
  "images (hero (onerror p i img)) = (images (hero p))[i := Some img]"
  by (simp add: onerror_def)

lemma step_images:
  "images (hero (step p ev)) =
     (case ev of
        Onload i w h \<Rightarrow>
          if i < totalFrames (hero p)
          then (images (hero p))[i := Some \<lparr>src = i, width = w, height = h\<rparr>]
          else images (hero p)
      | Onerror i \<Rightarrow>
          if i < totalFrames (hero p)
          then (images (hero p))[i := Some \<lparr>src = i, width = 0, height = 0\<rparr>]
          else images (hero p)
      | _ \<Rightarrow> images (hero p))"
  by (cases ev) simp_all

lemma settles_Onload: "Onload i w h \<in> set es \<Longrightarrow> settles i es"
  by (force simp add: settles_def)

lemma settles_Onerror: "Onerror i \<in> set es \<Longrightarrow> settles i es"
  by (force simp add: settles_def)

lemma one_event_per_frame_snoc:
  "one_event_per_frame (es @ [e]) =
     (one_event_per_frame es \<and> (\<forall>j. settled_frame e = Some j \<longrightarrow> \<not> settles j es))"
  by (cases "settled_frame e") (auto simp add: one_event_per_frame_def settles_def)

lemma run_images:
  assumes "i < n" and "one_event_per_frame es"
  shows "(\<not> settles i es \<longrightarrow> images (hero (run (start n op cs v) es)) ! i = None)
    \<and> (Onerror i \<in> set es \<longrightarrow>
         images (hero (run (start n op cs v) es)) ! i = Some \<lparr>src = i, width = 0, height = 0\<rparr>)
    \<and> (\<forall>w h. Onload i w h \<in> set es \<longrightarrow>
         images (hero (run (start n op cs v) es)) ! i = Some \<lparr>src = i, width = w, height = h\<rparr>)"
  using assms(2)
proof (induction es rule: rev_induct)
  case Nil
  show ?case using assms(1) by (simp add: run_Nil settles_Nil start_fields)
next
  case (snoc e es)
  let ?p = "run (start n op cs v) es"
  from snoc.prems have one: "one_event_per_frame es"
    and fresh: "\<And>j. settled_frame e = Some j \<Longrightarrow> \<not> settles j es"
    by (simp_all add: one_event_per_frame_snoc)
  note IH = snoc.IH [OF one]
  have "page_inv ?p"
    using start_inv by (rule run_inv)
  then have len: "length (images (hero ?p)) = n"
    by (simp add: page_inv_def start_fields)
  have tf: "totalFrames (hero ?p) = n"
    by (simp add: start_fields)
  show ?case
  proof (cases e)
    case (Onload j w h)
    show ?thesis
    proof (cases "j = i")
      case True
      then have "\<not> settles i es"
        using fresh [of i] Onload by simp
      then have "Onerror i \<notin> set es" and "\<And>w' h'. Onload i w' h' \<notin> set es"
        using settles_Onerror settles_Onload by blast+
      then show ?thesis
        using Onload True assms(1) len tf
        by (auto simp add: run_snoc step_images settles_snoc)
    next
      case False
      then show ?thesis
        using Onload IH len tf
        by (auto simp add: run_snoc step_images settles_snoc)
    qed
  next
    case (Onerror j)
    show ?thesis
    proof (cases "j = i")
      case True
      then have "\<not> settles i es"
        using fresh [of i] Onerror by simp
      then have "Onerror i \<notin> set es" and "\<And>w' h'. Onload i w' h' \<notin> set es"
        using settles_Onerror settles_Onload by blast+
      then show ?thesis
        using Onerror True assms(1) len tf
        by (auto simp add: run_snoc step_images settles_snoc)
    next
      case False
      then show ?thesis
        using Onerror IH len tf
        by (auto simp add: run_snoc step_images settles_snoc)
    qed
  next
    case (Resize x)
    then show ?thesis
      using IH by (auto simp add: run_snoc step_images settles_snoc)
  next
    case (Scroll x)
    then show ?thesis
      using IH by (auto simp add: run_snoc step_images settles_snoc)
  next
    case AnimationFrame
    then show ?thesis
      using IH by (auto simp add: run_snoc step_images settles_snoc)
  qed
qed

lemma settles_cases:
  "settles i es \<Longrightarrow> Onerror i \<in> set es \<or> (\<exists>w h. Onload i w h \<in> set es)"
proof -
  assume "settles i es"
  then obtain e where e: "e \<in> set es" "settled_frame e = Some i"
    by (auto simp add: settles_def)
  show ?thesis
  proof (cases e)
    case (Onload j w h)
    with e show ?thesis by auto
  next
    case (Onerror j)
    with e show ?thesis by auto
  next
    case (Resize x)
    with e show ?thesis by simp
  next
    case (Scroll x)
    with e show ?thesis by simp
  next
    case AnimationFrame
    with e show ?thesis by simp
  qed
qed

lemma one_event_exclusive:
  "one_event_per_frame es \<Longrightarrow> Onerror i \<in> set es \<Longrightarrow> Onload i w h \<notin> set es"
proof (induction es rule: rev_induct)
  case Nil
  then show ?case by simp
next
  case (snoc e es)
  then show ?case
    using settles_Onerror settles_Onload
    by (auto simp add: one_event_per_frame_snoc)
qed

text \<open>
  C8. From construction, after any sequence of events: the callback chained to the
  aggregate of \<^verbatim>\<open>preloadFrames\<close> has run once if every frame in [0, N) has had its load
  or error event, and not at all otherwise, so it runs exactly once and only after all N
  fetches have settled, whatever the mix of successes and failures; the promise of frame
  \<open>i\<close> is resolved exactly when frame \<open>i\<close> has had its event. With one event per fetch, a
  slot whose fetch failed holds the image of width 0, a slot whose fetch succeeded holds the
  loaded image, and a slot still pending is empty; once all have settled, every slot holds
  an image, and it is the unavailable one (width 0) exactly for the failed fetches.
\<close>

theorem preload_resolves_once:
  "then_runs (run (start n op cs v) es) = (if \<forall>i<n. settles i es then 1 else 0)
   \<and> (\<forall>i<n. promises (run (start n op cs v) es) ! i = settles i es)
   \<and> (one_event_per_frame es \<longrightarrow>
        (\<forall>i<n.
           (\<not> settles i es \<longrightarrow> images (hero (run (start n op cs v) es)) ! i = None)
         \<and> (Onerror i \<in> set es \<longrightarrow>
              images (hero (run (start n op cs v) es)) ! i = Some \<lparr>src = i, width = 0, height = 0\<rparr>)
         \<and> (\<forall>w h. Onload i w h \<in> set es \<longrightarrow>
              images (hero (run (start n op cs v) es)) ! i
                = Some \<lparr>src = i, width = w, height = h\<rparr>)))
   \<and> (one_event_per_frame es \<and> (\<forall>i<n. settles i es)
        \<and> (\<forall>i w h. Onload i w h \<in> set es \<longrightarrow> 0 < w) \<longrightarrow>
        (\<forall>i<n. \<exists>img. images (hero (run (start n op cs v) es)) ! i = Some img
                  \<and> (width img = 0) = (Onerror i \<in> set es)))"
proof -
  let ?p = "run (start n op cs v) es"
  have a: "then_runs ?p = (if \<forall>i<n. settles i es then 1 else 0)"
    by (rule start_then_runs)
  have b: "\<forall>i<n. promises ?p ! i = settles i es"
    by (simp add: start_promises)
  have c: "one_event_per_frame es \<longrightarrow>
        (\<forall>i<n.
           (\<not> settles i es \<longrightarrow> images (hero ?p) ! i = None)
         \<and> (Onerror i \<in> set es \<longrightarrow>
              images (hero ?p) ! i = Some \<lparr>src = i, width = 0, height = 0\<rparr>)
         \<and> (\<forall>w h. Onload i w h \<in> set es \<longrightarrow>
              images (hero ?p) ! i = Some \<lparr>src = i, width = w, height = h\<rparr>))"
    using run_images by blast
  have d: "one_event_per_frame es \<and> (\<forall>i<n. settles i es)
        \<and> (\<forall>i w h. Onload i w h \<in> set es \<longrightarrow> 0 < w) \<longrightarrow>
        (\<forall>i<n. \<exists>img. images (hero ?p) ! i = Some img
                  \<and> (width img = 0) = (Onerror i \<in> set es))"
  proof (intro impI allI)
    fix i
    assume h: "one_event_per_frame es \<and> (\<forall>i<n. settles i es)
        \<and> (\<forall>i w h. Onload i w h \<in> set es \<longrightarrow> 0 < w)"
      and i: "i < n"
    then have one: "one_event_per_frame es" and s: "settles i es"
      by simp_all
    note im = run_images [OF i one, of op cs v]
    from settles_cases [OF s]
    show "\<exists>img. images (hero ?p) ! i = Some img \<and> (width img = 0) = (Onerror i \<in> set es)"
    proof
      assume err: "Onerror i \<in> set es"
      then have "images (hero ?p) ! i = Some \<lparr>src = i, width = 0, height = 0\<rparr>"
        using im by blast
      then show ?thesis
        using err by simp
    next
      assume "\<exists>w h. Onload i w h \<in> set es"
      then obtain w h' where ld: "Onload i w h' \<in> set es"
        by blast
      then have "images (hero ?p) ! i = Some \<lparr>src = i, width = w, height = h'\<rparr>"
        using im by blast
      moreover have "0 < w"
        using h ld by blast
      moreover have "Onerror i \<notin> set es"
        using one_event_exclusive [OF one] ld by blast
      ultimately show ?thesis
        by simp
    qed
  qed
  show ?thesis
    using a b c d by blast
qed

theorem preload_resolves_once_witness:
  "then_runs (run (start 3 (Num 0) [] \<lparr>devicePixelRatio = 2, innerWidth = 1280, viewHeight = 720\<rparr>)
      [Onload 1 640 360, Onerror 0,
       Resize \<lparr>devicePixelRatio = 2, innerWidth = 1280, viewHeight = 720\<rparr>]) = 0
   \<and> images (hero (run (start 3 (Num 0) [] \<lparr>devicePixelRatio = 2, innerWidth = 1280, viewHeight = 720\<rparr>)
      [Onload 1 640 360, Onerror 0,
       Resize \<lparr>devicePixelRatio = 2, innerWidth = 1280, viewHeight = 720\<rparr>])) ! 2 = None
   \<and> then_runs (run (start 3 (Num 0) [] \<lparr>devicePixelRatio = 2, innerWidth = 1280, viewHeight = 720\<rparr>)
      [Onload 1 640 360, Onerror 0,
       Resize \<lparr>devicePixelRatio = 2, innerWidth = 1280, viewHeight = 720\<rparr>,
       Onload 2 640 360]) = 1
   \<and> images (hero (run (start 3 (Num 0) [] \<lparr>devicePixelRatio = 2, innerWidth = 1280, viewHeight = 720\<rparr>)
      [Onload 1 640 360, Onerror 0,
       Resize \<lparr>devicePixelRatio = 2, innerWidth = 1280, viewHeight = 720\<rparr>,
       Onload 2 640 360])) ! 0 = Some \<lparr>src = 0, width = 0, height = 0\<rparr>
   \<and> images (hero (run (start 3 (Num 0) [] \<lparr>devicePixelRatio = 2, innerWidth = 1280, viewHeight = 720\<rparr>)
      [Onload 1 640 360, Onerror 0,
       Resize \<lparr>devicePixelRatio = 2, innerWidth = 1280, viewHeight = 720\<rparr>,
       Onload 2 640 360])) ! 1 = Some \<lparr>src = 1, width = 640, height = 360\<rparr>
   \<and> (\<exists>img. images (hero (run (start 3 (Num 0) [] \<lparr>devicePixelRatio = 2, innerWidth = 1280, viewHeight = 720\<rparr>)
      [Onload 1 640 360, Onerror 0,
       Resize \<lparr>devicePixelRatio = 2, innerWidth = 1280, viewHeight = 720\<rparr>,
       Onload 2 640 360])) ! 2 = Some img \<and> width img \<noteq> 0)"
proof -
  let ?v = "\<lparr>devicePixelRatio = 2, innerWidth = 1280, viewHeight = 720\<rparr>"
  let ?pre = "[Onload 1 640 360, Onerror 0, Resize ?v]"
  let ?es = "[Onload 1 640 360, Onerror 0, Resize ?v, Onload 2 640 360]"
  have three: "\<And>P. (\<forall>i<(3::nat). P i) = (P 0 \<and> P 1 \<and> P 2)"
    by (auto simp add: less_Suc_eq numeral_3_eq_3 numeral_2_eq_2)
  have all: "\<forall>i<(3::nat). settles i ?es"
    unfolding three by (simp add: settles_def)
  have notyet: "\<not> (\<forall>i<(3::nat). settles i ?pre)"
    unfolding three by (simp add: settles_def)
  have pending: "\<not> settles 2 ?pre"
    by (simp add: settles_def)
  have one: "one_event_per_frame ?es" and one': "one_event_per_frame ?pre"
    by (simp_all add: one_event_per_frame_def)
  have pos: "\<forall>i w h. Onload i w h \<in> set ?es \<longrightarrow> 0 < w"
    by auto
  have err: "Onerror 0 \<in> set ?es" and ld: "Onload 1 640 360 \<in> set ?es"
    and noerr: "Onerror 2 \<notin> set ?es"
    by simp_all
  from preload_resolves_once [of 3 "Num 0" "[]" ?v ?pre]
  have "then_runs (run (start 3 (Num 0) [] ?v) ?pre) = (if \<forall>i<3. settles i ?pre then 1 else 0)"
    by (rule conjunct1)
  then have a: "then_runs (run (start 3 (Num 0) [] ?v) ?pre) = 0"
    unfolding if_not_P [OF notyet] .
  from preload_resolves_once [of 3 "Num 0" "[]" ?v ?pre] one'
  have "\<forall>i<3. \<not> settles i ?pre \<longrightarrow> images (hero (run (start 3 (Num 0) [] ?v) ?pre)) ! i = None"
    by blast
  then have a': "images (hero (run (start 3 (Num 0) [] ?v) ?pre)) ! 2 = None"
    using pending by (simp add: three)
  from preload_resolves_once [of 3 "Num 0" "[]" ?v ?es]
  have "then_runs (run (start 3 (Num 0) [] ?v) ?es) = (if \<forall>i<3. settles i ?es then 1 else 0)"
    by (rule conjunct1)
  then have b: "then_runs (run (start 3 (Num 0) [] ?v) ?es) = 1"
    unfolding if_P [OF all] .
  from preload_resolves_once [of 3 "Num 0" "[]" ?v ?es] one
  have im: "\<forall>i<3.
           (\<not> settles i ?es \<longrightarrow> images (hero (run (start 3 (Num 0) [] ?v) ?es)) ! i = None)
         \<and> (Onerror i \<in> set ?es \<longrightarrow>
              images (hero (run (start 3 (Num 0) [] ?v) ?es)) ! i = Some \<lparr>src = i, width = 0, height = 0\<rparr>)
         \<and> (\<forall>w h. Onload i w h \<in> set ?es \<longrightarrow>
              images (hero (run (start 3 (Num 0) [] ?v) ?es)) ! i
                = Some \<lparr>src = i, width = w, height = h\<rparr>)"
    by blast
  have c: "images (hero (run (start 3 (Num 0) [] ?v) ?es)) ! 0 = Some \<lparr>src = 0, width = 0, height = 0\<rparr>"
    using im err by (simp add: three)
  have d: "images (hero (run (start 3 (Num 0) [] ?v) ?es)) ! 1 = Some \<lparr>src = 1, width = 640, height = 360\<rparr>"
    using im ld by (simp add: three)
  from preload_resolves_once [of 3 "Num 0" "[]" ?v ?es] one all pos
  have "\<forall>i<3. \<exists>img. images (hero (run (start 3 (Num 0) [] ?v) ?es)) ! i = Some img
                  \<and> (width img = 0) = (Onerror i \<in> set ?es)"
    by blast
  then have "\<exists>img. images (hero (run (start 3 (Num 0) [] ?v) ?es)) ! 2 = Some img
                  \<and> (width img = 0) = (Onerror 2 \<in> set ?es)"
    unfolding three by blast
  then have e: "\<exists>img. images (hero (run (start 3 (Num 0) [] ?v) ?es)) ! 2 = Some img
                  \<and> width img \<noteq> 0"
    using noerr by blast
  show ?thesis
    using a a' b c d e by blast
qed

text \<open>The same run evaluated step by step.\<close>

lemma preload_example:
  "then_runs (run (start 3 (Num 0) [] \<lparr>devicePixelRatio = 2, innerWidth = 1280, viewHeight = 720\<rparr>)
      [Onload 1 640 360, Onerror 0,
       Resize \<lparr>devicePixelRatio = 2, innerWidth = 1280, viewHeight = 720\<rparr>,
       Onload 2 640 360]) = 1"
  by (simp add: run_def start_def HeroCanvas_def resize_def js_or_def array_get_def onload_def onerror_def
      resolve_def init_then_def drawFrame_def Let_def numeral_3_eq_3)

section \<open>Facts about binary64 rounding\<close>

lemma pow2_pos [simp]: "0 < (2::real) powi e"
  by simp

lemma pow2_Suc: "(2::real) powi (e + 1) = 2 * 2 powi e"
  by (simp add: power_int_add)

lemma pow2_mono: "a \<le> b \<Longrightarrow> (2::real) powi a \<le> 2 powi b"
  by (rule power_int_increasing) simp_all

lemma pow2_strict_mono: "a < b \<Longrightarrow> (2::real) powi a < 2 powi b"
  by (rule power_int_strict_increasing) simp_all

lemma pow2_less_cancel: "(2::real) powi a < 2 powi b \<Longrightarrow> a < b"
  by (rule ccontr) (use pow2_mono [of b a] in simp)

lemma pow2_neg: "(2::real) powi (- k) = 1 / 2 powi k"
  by (simp add: power_int_minus divide_inverse)

lemma times_pow2_eq: "(a * 2 powi k = 1) = (a = (2::real) powi (- k))"
proof -
  have p: "0 < (2::real) powi k" by simp
  show ?thesis
    unfolding pow2_neg using p by (simp add: field_simps)
qed

lemma times_pow2_less: "(a * 2 powi k < 1) = (a < (2::real) powi (- k))"
proof -
  have p: "0 < (2::real) powi k" by simp
  show ?thesis
    unfolding pow2_neg using p by (simp add: field_simps)
qed

lemma times_pow2_greater: "(1 < a * 2 powi k) = ((2::real) powi (- k) < a)"
proof -
  have p: "0 < (2::real) powi k" by simp
  show ?thesis
    unfolding pow2_neg using p by (simp add: field_simps)
qed

lemma binade_ge1:
  assumes "1 \<le> \<bar>x\<bar>"
  shows "2 powi binade x \<le> \<bar>x\<bar> \<and> \<bar>x\<bar> < 2 powi (binade x + 1)"
proof -
  let ?m = "\<lfloor>\<bar>x\<bar>\<rfloor>"
  have m: "0 < ?m" using assms by simp
  have b: "binade x = bitlen ?m - 1"
    using assms by (simp add: binade_def)
  have nn: "0 \<le> bitlen ?m - 1"
    using m by (simp add: bitlen_alt_def)
  from bitlen_bounds [OF m] have lo: "2 ^ nat (bitlen ?m - 1) \<le> ?m" and hi: "?m < 2 ^ nat (bitlen ?m)"
    by simp_all
  have "(2::real) powi (bitlen ?m - 1) = of_int (2 ^ nat (bitlen ?m - 1))"
    using nn by (simp add: power_int_def)
  also have "\<dots> \<le> of_int ?m"
    using lo by (simp only: of_int_le_iff)
  also have "\<dots> \<le> \<bar>x\<bar>"
    by simp
  finally have 1: "2 powi binade x \<le> \<bar>x\<bar>"
    by (simp add: b)
  have "?m + 1 \<le> 2 ^ nat (bitlen ?m)"
    using hi by simp
  then have "real_of_int (?m + 1) \<le> of_int (2 ^ nat (bitlen ?m))"
    by (simp only: of_int_le_iff)
  moreover have "\<bar>x\<bar> < real_of_int (?m + 1)"
    by linarith
  moreover have "(2::real) powi (bitlen ?m) = of_int (2 ^ nat (bitlen ?m))"
    using nn by (simp add: power_int_def)
  ultimately have "\<bar>x\<bar> < 2 powi (bitlen ?m)"
    by linarith
  then have 2: "\<bar>x\<bar> < 2 powi (binade x + 1)"
    by (simp add: b)
  show ?thesis using 1 2 by simp
qed

lemma binade_lt1:
  assumes "x \<noteq> 0" and "\<bar>x\<bar> < 1"
  shows "2 powi binade x \<le> \<bar>x\<bar> \<and> \<bar>x\<bar> < 2 powi (binade x + 1)"
proof -
  let ?a = "\<bar>x\<bar>"
  have a: "0 < ?a" using assms(1) by simp
  have inv: "1 < 1 / ?a" using a assms(2) by simp
  let ?k = "bitlen \<lfloor>1 / ?a\<rfloor> - 1"
  have "1 \<le> \<bar>1 / ?a\<bar>" using inv by simp
  from binade_ge1 [OF this] have "2 powi binade (1 / ?a) \<le> 1 / ?a \<and> 1 / ?a < 2 powi (binade (1 / ?a) + 1)"
    using a by simp
  moreover have "binade (1 / ?a) = ?k"
    using inv a by (simp add: binade_def)
  ultimately have lo: "2 powi ?k \<le> 1 / ?a" and hi: "1 / ?a < 2 powi (?k + 1)"
    by simp_all
  have up: "?a * 2 powi ?k \<le> 1"
    using lo a by (simp add: pos_le_divide_eq mult.commute)
  have dn: "1 < ?a * 2 powi (?k + 1)"
    using hi a by (simp add: pos_divide_less_eq mult.commute)
  show ?thesis
  proof (cases "?a * 2 powi ?k = 1")
    case True
    then have b: "binade x = - ?k"
      using a assms(2) by (simp add: binade_def Let_def)
    have "?a = 2 powi (- ?k)"
      using True by (simp only: times_pow2_eq)
    then show ?thesis
      unfolding b using pow2_strict_mono [of "- ?k" "- ?k + 1"] by simp
  next
    case False
    then have b: "binade x = - ?k - 1"
      using a assms(2) by (simp add: binade_def Let_def)
    have "?a * 2 powi ?k < 1"
      using up False by simp
    then have 2: "?a < 2 powi (- ?k)"
      by (simp only: times_pow2_less)
    have "2 powi (- (?k + 1)) < ?a"
      using dn by (simp only: times_pow2_greater)
    moreover have "- (?k + 1) = - ?k - 1"
      by simp
    ultimately have 1: "2 powi (- ?k - 1) \<le> ?a"
      by simp
    show ?thesis
      unfolding b using 1 2 by simp
  qed
qed

lemma binade_bounds:
  "x \<noteq> 0 \<Longrightarrow> 2 powi binade x \<le> \<bar>x\<bar> \<and> \<bar>x\<bar> < 2 powi (binade x + 1)"
  using binade_ge1 [of x] binade_lt1 [of x] by (cases "1 \<le> \<bar>x\<bar>") simp_all

lemma binade_unique:
  assumes "2 powi e \<le> \<bar>x\<bar>" and "\<bar>x\<bar> < 2 powi (e + 1)"
  shows "binade x = e"
proof -
  have "0 < (2::real) powi e" by simp
  with assms(1) have "0 < \<bar>x\<bar>" by linarith
  then have "x \<noteq> 0" by simp
  from binade_bounds [OF this] have b: "2 powi binade x \<le> \<bar>x\<bar>" "\<bar>x\<bar> < 2 powi (binade x + 1)"
    by simp_all
  have "(2::real) powi e < 2 powi (binade x + 1)"
    using assms(1) b(2) by linarith
  then have "e < binade x + 1" by (rule pow2_less_cancel)
  moreover have "(2::real) powi binade x < 2 powi (e + 1)"
    using assms(2) b(1) by linarith
  then have "binade x < e + 1" by (rule pow2_less_cancel)
  ultimately show ?thesis by simp
qed

lemma binade_minus [simp]: "binade (- x) = binade x"
  by (simp add: binade_def)

lemma ulp_minus [simp]: "ulp (- x) = ulp x"
  by (simp add: ulp_def)

lemma ulp_pos [simp]: "0 < ulp x"
  by (simp add: ulp_def)

lemma ulp_nonzero [simp]: "ulp x \<noteq> 0"
  by (metis ulp_pos less_irrefl)

lemma ulp_nonneg [simp]: "0 \<le> ulp x"
  by (simp add: ulp_def)

lemma ulp_abs [simp]: "\<bar>ulp x\<bar> = ulp x"
  by (simp add: abs_of_pos)

lemma rne_of_int [simp]: "rne (of_int n) = n"
  by (simp add: rne_def)

lemma rne_zero [simp]: "rne 0 = 0"
  by (simp add: rne_def)

lemma rne_floor: "\<lfloor>q\<rfloor> \<le> rne q \<and> rne q \<le> \<lfloor>q\<rfloor> + 1"
  by (simp add: rne_def Let_def)

lemma rne_mono:
  assumes "q \<le> q'"
  shows "rne q \<le> rne q'"
proof (cases "\<lfloor>q\<rfloor> = \<lfloor>q'\<rfloor>")
  case True
  then show ?thesis
    using assms by (auto simp add: rne_def Let_def)
next
  case False
  then have "\<lfloor>q\<rfloor> + 1 \<le> \<lfloor>q'\<rfloor>"
    using floor_mono [OF assms] by simp
  then show ?thesis
    using rne_floor [of q] rne_floor [of q'] by linarith
qed

lemma rne_error: "\<bar>real_of_int (rne q) - q\<bar> \<le> 1 / 2"
proof -
  have "of_int \<lfloor>q\<rfloor> \<le> q" and "q < of_int \<lfloor>q\<rfloor> + 1"
    by linarith+
  then show ?thesis
    by (auto simp add: rne_def Let_def abs_le_iff)
qed

lemma rne_minus: "rne (- q) = - rne q"
proof (cases "q = of_int \<lfloor>q\<rfloor>")
  case True
  then obtain n where "q = of_int n" ..
  then have "- q = of_int (- n)" by simp
  then have "rne (- q) = - n" by (simp only: rne_of_int)
  then show ?thesis using \<open>q = of_int n\<close> by simp
next
  case False
  then have fl: "\<lfloor>- q\<rfloor> = - \<lfloor>q\<rfloor> - 1"
    by (simp add: floor_minus ceiling_altdef)
  show ?thesis
    unfolding rne_def Let_def fl by (auto simp add: algebra_simps)
qed

lemma binary64_zero [simp]: "binary64 0 = 0"
  by (simp add: binary64_def)

lemma binary64_minus: "binary64 (- x) = - binary64 x"
  by (simp add: binary64_def rne_minus)

lemma binary64_error_ulp: "\<bar>binary64 x - x\<bar> \<le> ulp x / 2"
proof -
  have "binary64 x - x = (of_int (rne (x / ulp x)) - x / ulp x) * ulp x"
    by (simp add: binary64_def algebra_simps)
  then have "\<bar>binary64 x - x\<bar> = \<bar>of_int (rne (x / ulp x)) - x / ulp x\<bar> * ulp x"
    by (simp add: abs_mult)
  also have "\<dots> \<le> (1 / 2) * ulp x"
    by (intro mult_right_mono rne_error) simp
  finally show ?thesis by simp
qed

lemma ulp_expo: "ulp x = 2 powi (expo x - 52)"
  by (simp add: ulp_def expo_def)

lemma expo_ge: "- 1022 \<le> expo x"
  by (simp add: expo_def)

lemma expo_upper: "\<bar>x\<bar> < 2 powi (expo x + 1)"
proof (cases "x = 0")
  case True
  then show ?thesis by simp
next
  case False
  from binade_bounds [OF this] have "\<bar>x\<bar> < 2 powi (binade x + 1)" by simp
  also have "\<dots> \<le> 2 powi (expo x + 1)"
    by (rule pow2_mono) (simp add: expo_def)
  finally show ?thesis .
qed

lemma expo_lower:
  assumes "2 powi (- 1022) \<le> \<bar>x\<bar>"
  shows "2 powi (expo x) \<le> \<bar>x\<bar>"
proof -
  have "0 < (2::real) powi (- 1022)" by (rule pow2_pos)
  with assms have "x \<noteq> 0" by auto
  from binade_bounds [OF this] have b: "2 powi binade x \<le> \<bar>x\<bar>" "\<bar>x\<bar> < 2 powi (binade x + 1)"
    by simp_all
  have "(2::real) powi (- 1022) < 2 powi (binade x + 1)"
    using assms b(2) by linarith
  then have "- 1022 < binade x + 1" by (rule pow2_less_cancel)
  then have "expo x = binade x" by (simp add: expo_def)
  then show ?thesis using b(1) by simp
qed

lemma pow2_53: "(2::real) powi (e + 1) = 2 ^ 53 * 2 powi (e - 52)"
proof -
  have "e + 1 = 53 + (e - 52)" by simp
  then have "(2::real) powi (e + 1) = 2 powi (53 + (e - 52))" by (rule arg_cong)
  also have "\<dots> = 2 powi 53 * 2 powi (e - 52)"
    by (rule power_int_add) simp
  finally show ?thesis by simp
qed

lemma pow2_52: "(2::real) powi e = 2 ^ 52 * 2 powi (e - 52)"
proof -
  have "e = 52 + (e - 52)" by simp
  then have "(2::real) powi e = 2 powi (52 + (e - 52))" by (rule arg_cong)
  also have "\<dots> = 2 powi 52 * 2 powi (e - 52)"
    by (rule power_int_add) simp
  finally show ?thesis by simp
qed

text \<open>For nonnegative \<open>x\<close>: the rounded value stays within the binade's closed range.\<close>

lemma binary64_nonneg: "0 \<le> x \<Longrightarrow> 0 \<le> binary64 x"
proof -
  assume "0 \<le> x"
  then have "0 \<le> x / ulp x" by simp
  then have "rne 0 \<le> rne (x / ulp x)" by (rule rne_mono)
  then show ?thesis by (simp add: binary64_def)
qed

lemma binary64_upper:
  assumes "0 \<le> x"
  shows "binary64 x \<le> 2 powi (expo x + 1)"
proof -
  have "x < 2 ^ 53 * ulp x"
    using expo_upper [of x] assms by (simp add: pow2_53 ulp_expo)
  then have "x / ulp x \<le> 2 ^ 53"
    by (simp add: pos_divide_le_eq)
  then have "rne (x / ulp x) \<le> rne (of_int (2 ^ 53))"
    by (intro rne_mono) simp
  then have "rne (x / ulp x) \<le> 2 ^ 53"
    by (simp only: rne_of_int)
  then have "real_of_int (rne (x / ulp x)) \<le> 2 ^ 53"
    by (metis of_int_le_iff of_int_numeral of_int_power)
  then have "binary64 x \<le> 2 ^ 53 * ulp x"
    unfolding binary64_def by (intro mult_right_mono) simp_all
  then show ?thesis
    by (simp add: pow2_53 ulp_expo)
qed

lemma binary64_lower:
  assumes "0 \<le> x" and "2 powi (- 1022) \<le> x"
  shows "2 powi (expo x) \<le> binary64 x"
proof -
  have "2 powi (expo x) \<le> x"
    using expo_lower [of x] assms by simp
  then have "2 ^ 52 * ulp x \<le> x"
    by (simp add: pow2_52 [of "expo x"] ulp_expo)
  then have "2 ^ 52 \<le> x / ulp x"
    by (simp add: pos_le_divide_eq)
  then have "rne (of_int (2 ^ 52)) \<le> rne (x / ulp x)"
    by (intro rne_mono) simp
  then have "2 ^ 52 \<le> rne (x / ulp x)"
    by (simp only: rne_of_int)
  then have "2 ^ 52 \<le> real_of_int (rne (x / ulp x))"
    by (metis of_int_le_iff of_int_numeral of_int_power)
  then have "2 ^ 52 * ulp x \<le> binary64 x"
    unfolding binary64_def by (intro mult_right_mono) simp_all
  then show ?thesis
    by (simp add: pow2_52 [of "expo x"] ulp_expo)
qed

lemma expo_mono:
  assumes "0 < x" and "x \<le> y"
  shows "expo x \<le> expo y"
proof -
  have x: "x \<noteq> 0" and y: "y \<noteq> 0" using assms by simp_all
  from binade_bounds [OF x] binade_bounds [OF y] assms
  have "2 powi binade x \<le> x" and "y < 2 powi (binade y + 1)" by simp_all
  then have "(2::real) powi binade x < 2 powi (binade y + 1)"
    using assms(2) by linarith
  then have "binade x < binade y + 1" by (rule pow2_less_cancel)
  then show ?thesis by (simp add: expo_def)
qed

lemma binary64_mono_pos:
  assumes "0 < x" and "x \<le> y"
  shows "binary64 x \<le> binary64 y"
proof (cases "expo x = expo y")
  case True
  then have u: "ulp x = ulp y" by (simp add: ulp_expo)
  have "x / ulp y \<le> y / ulp y"
    using assms(2) by (simp add: divide_right_mono)
  then have "rne (x / ulp y) \<le> rne (y / ulp y)" by (rule rne_mono)
  then have "real_of_int (rne (x / ulp y)) * ulp y \<le> real_of_int (rne (y / ulp y)) * ulp y"
    by (intro mult_right_mono) simp_all
  then show ?thesis by (simp add: binary64_def u)
next
  case False
  then have lt: "expo x < expo y"
    using expo_mono [OF assms] by simp
  then have "- 1022 < expo y" using expo_ge [of x] by simp
  then have "expo y = binade y" by (simp add: expo_def)
  moreover have "y \<noteq> 0" using assms by simp
  ultimately have "2 powi (expo y) \<le> \<bar>y\<bar>"
    using binade_bounds [of y] by simp
  moreover have "(2::real) powi (- 1022) \<le> 2 powi (expo y)"
    by (rule pow2_mono) (rule expo_ge)
  ultimately have "2 powi (- 1022) \<le> y" using assms by simp
  then have "2 powi (expo y) \<le> binary64 y"
    using assms by (intro binary64_lower) simp_all
  moreover have "binary64 x \<le> 2 powi (expo x + 1)"
    using assms by (intro binary64_upper) simp
  moreover have "(2::real) powi (expo x + 1) \<le> 2 powi (expo y)"
    using lt by (intro pow2_mono) simp
  ultimately show ?thesis by linarith
qed

lemma binary64_mono:
  assumes "x \<le> y"
  shows "binary64 x \<le> binary64 y"
proof -
  consider "0 < x" | "x \<le> 0" "0 \<le> y" | "y < 0" by linarith
  then show ?thesis
  proof cases
    case 1
    then show ?thesis using assms by (rule binary64_mono_pos)
  next
    case 2
    then have "0 \<le> binary64 y" by (intro binary64_nonneg)
    moreover have "0 \<le> binary64 (- x)" using 2 by (intro binary64_nonneg) simp
    ultimately show ?thesis by (simp add: binary64_minus)
  next
    case 3
    then have "binary64 (- y) \<le> binary64 (- x)"
      using assms by (intro binary64_mono_pos) simp_all
    then show ?thesis by (simp add: binary64_minus)
  qed
qed

text \<open>Values with at most 53 significant bits and an exponent in range are fixed.\<close>

lemma binary64_representable:
  assumes x: "x = real_of_int r * 2 powi k" and r: "\<bar>r\<bar> < 2 ^ 53" and k: "- 1074 \<le> k"
  shows "binary64 x = x"
proof (cases "r = 0")
  case True
  then show ?thesis using x by simp
next
  case False
  then have x0: "x \<noteq> 0" using x by simp
  have "real_of_int \<bar>r\<bar> < 2 ^ 53"
    using r by (metis of_int_less_iff of_int_numeral of_int_power)
  then have "\<bar>x\<bar> < 2 ^ 53 * 2 powi k"
    unfolding x by (simp add: abs_mult)
  also have "\<dots> = 2 powi (53 + k)"
    by (simp add: power_int_add)
  finally have "\<bar>x\<bar> < 2 powi (53 + k)" .
  moreover have "2 powi binade x \<le> \<bar>x\<bar>"
    using binade_bounds [OF x0] by simp
  ultimately have "(2::real) powi binade x < 2 powi (53 + k)" by linarith
  then have "binade x < 53 + k" by (rule pow2_less_cancel)
  then have e: "expo x - 52 \<le> k" using k by (simp add: expo_def)
  define j where "j = nat (k - (expo x - 52))"
  define u where "u = ulp x"
  have u: "0 < u" by (simp add: u_def)
  have b: "binary64 x = real_of_int (rne (x / u)) * u"
    by (simp add: binary64_def u_def)
  have kj: "k = (expo x - 52) + int j" using e by (simp add: j_def)
  have "(2::real) powi k = 2 powi (expo x - 52) * 2 powi (int j)"
    by (subst kj) (simp add: power_int_add)
  then have p: "(2::real) powi k = u * 2 ^ j"
    by (simp add: ulp_expo u_def)
  have xu: "x = real_of_int (r * 2 ^ j) * u"
    by (simp add: x p)
  then have "x / u = real_of_int (r * 2 ^ j)"
    using u by simp
  then have "binary64 x = real_of_int (r * 2 ^ j) * u"
    unfolding b by (simp only: rne_of_int)
  then show ?thesis
    using xu by simp
qed

lemma binary64_of_int: "\<bar>n\<bar> < 2 ^ 53 \<Longrightarrow> binary64 (of_int n) = of_int n"
  by (rule binary64_representable [where r = n and k = 0]) simp_all

lemma binary64_of_nat: "n < 2 ^ 53 \<Longrightarrow> binary64 (real n) = real n"
  using binary64_of_int [of "int n"] by simp

lemma binary64_idem [simp]: "binary64 (binary64 x) = binary64 x"
proof -
  have pos: "binary64 (binary64 x) = binary64 x" if "0 \<le> x" for x
  proof -
    let ?r = "rne (x / ulp x)"
    have r0: "0 \<le> ?r"
      using that rne_mono [of 0 "x / ulp x"] by simp
    have "x < 2 ^ 53 * ulp x"
      using expo_upper [of x] that by (simp add: pow2_53 ulp_expo)
    then have "x / ulp x \<le> 2 ^ 53"
      by (simp add: pos_divide_le_eq)
    then have "?r \<le> rne (of_int (2 ^ 53))"
      by (intro rne_mono) simp
    then have r53: "?r \<le> 2 ^ 53"
      by (simp only: rne_of_int)
    show ?thesis
    proof (cases "?r = 2 ^ 53")
      case True
      have "binary64 x = real_of_int (2 ^ 52) * 2 powi (expo x - 51)"
      proof -
        have "expo x - 51 = (expo x - 52) + 1" by simp
        then have "(2::real) powi (expo x - 51) = 2 powi ((expo x - 52) + 1)" by (rule arg_cong)
        also have "\<dots> = 2 * 2 powi (expo x - 52)"
          by (rule pow2_Suc)
        finally have "(2::real) powi (expo x - 51) = 2 * ulp x"
          by (simp add: ulp_expo)
        then show ?thesis
          unfolding binary64_def True by simp
      qed
      moreover have "\<bar>2 ^ 52 :: int\<bar> < 2 ^ 53" by simp
      moreover have "- 1074 \<le> expo x - 51"
        using expo_ge [of x] by linarith
      ultimately show ?thesis
        by (rule binary64_representable)
    next
      case False
      then have "\<bar>?r\<bar> < 2 ^ 53" using r0 r53 by simp
      moreover have "binary64 x = real_of_int ?r * 2 powi (expo x - 52)"
        by (simp add: binary64_def ulp_expo)
      moreover have "- 1074 \<le> expo x - 52"
        using expo_ge [of x] by linarith
      ultimately show ?thesis
        by (intro binary64_representable [where r = ?r and k = "expo x - 52"])
    qed
  qed
  show ?thesis
  proof (cases "0 \<le> x")
    case True
    then show ?thesis by (rule pos)
  next
    case False
    then have "binary64 (binary64 (- x)) = binary64 (- x)" by (intro pos) simp
    then show ?thesis by (simp add: binary64_minus)
  qed
qed

text \<open>The rounding error: half an ulp, relative \<open>2^-53\<close> above the subnormal range.\<close>

lemma ulp_bound: "ulp x \<le> \<bar>x\<bar> / 2 ^ 52 + 2 powi (- 1074)"
proof (cases "2 powi (- 1022) \<le> \<bar>x\<bar>")
  case True
  then have "2 powi (expo x) \<le> \<bar>x\<bar>" by (rule expo_lower)
  then have "2 ^ 52 * ulp x \<le> \<bar>x\<bar>"
    by (simp add: pow2_52 [of "expo x"] ulp_expo)
  then have "ulp x \<le> \<bar>x\<bar> / 2 ^ 52"
    by (simp add: pos_le_divide_eq mult.commute)
  moreover have "0 < (2::real) powi (- 1074)" by (rule pow2_pos)
  ultimately show ?thesis by linarith
next
  case False
  have "expo x = - 1022"
  proof (cases "x = 0")
    case True
    then show ?thesis by (simp add: expo_def binade_def)
  next
    case nz: False
    from binade_bounds [OF nz] False have "(2::real) powi binade x < 2 powi (- 1022)"
      by linarith
    then have "binade x < - 1022" by (rule pow2_less_cancel)
    then show ?thesis by (simp add: expo_def)
  qed
  then have "ulp x = 2 powi (- 1074)" by (simp add: ulp_expo)
  then show ?thesis by simp
qed

lemma binary64_error:
  "\<bar>binary64 x - x\<bar> \<le> \<bar>x\<bar> / 2 ^ 53 + 2 powi (- 1075)"
proof -
  have "(- 1074 :: int) = - 1075 + 1" by simp
  then have "(2::real) powi (- 1074) = 2 powi (- 1075 + 1)" by (rule arg_cong)
  also have "\<dots> = 2 * 2 powi (- 1075)" by (rule pow2_Suc)
  finally have h: "(2::real) powi (- 1074) = 2 * 2 powi (- 1075)" .
  have "\<bar>binary64 x - x\<bar> \<le> ulp x / 2" by (rule binary64_error_ulp)
  also have "\<dots> \<le> (\<bar>x\<bar> / 2 ^ 52 + 2 powi (- 1074)) / 2"
    using ulp_bound [of x] by simp
  also have "\<dots> = \<bar>x\<bar> / 2 ^ 53 + 2 powi (- 1075)"
    unfolding h by simp
  finally show ?thesis .
qed

lemma binary64_le_double:
  assumes "0 \<le> x"
  shows "binary64 x \<le> 2 * x"
proof (cases "x / ulp x < 1 / 2")
  case True
  have "0 \<le> x / ulp x" using assms by simp
  moreover have "x / ulp x < 1" using True by linarith
  ultimately have "\<lfloor>x / ulp x\<rfloor> = 0"
    by (intro floor_unique) simp_all
  then have "rne (x / ulp x) = 0" using True by (simp add: rne_def)
  then show ?thesis using assms by (simp add: binary64_def)
next
  case False
  have "real_of_int (rne (x / ulp x)) \<le> x / ulp x + 1 / 2"
    using rne_error [of "x / ulp x"] by linarith
  also have "\<dots> \<le> 2 * (x / ulp x)" using False by linarith
  finally have "real_of_int (rne (x / ulp x)) * ulp x \<le> 2 * (x / ulp x) * ulp x"
    by (intro mult_right_mono) simp_all
  then show ?thesis by (simp add: binary64_def)
qed

text \<open>Evaluating the rounding at a value whose binade is known.\<close>

lemma binary64_eval:
  assumes "2 powi e \<le> \<bar>x\<bar>" and "\<bar>x\<bar> < 2 powi (e + 1)" and "- 1022 \<le> e"
  shows "binary64 x = real_of_int (rne (x / 2 powi (e - 52))) * 2 powi (e - 52)"
proof -
  have "binade x = e" using assms(1,2) by (rule binade_unique)
  then have "ulp x = 2 powi (e - 52)" using assms(3) by (simp add: ulp_def)
  then show ?thesis by (simp add: binary64_def)
qed

text \<open>
  Binary64 values are multiples of \<open>2^-1074\<close>, so a difference of two of them that is
  smaller than \<open>2^-1022\<close> is computed exactly; and the largest binary64 value below 1 is
  \<open>1 - 2^-53\<close>.
\<close>

lemma rne_below: "q < real_of_int n - 1 / 2 \<Longrightarrow> rne q \<le> n - 1"
proof -
  assume a: "q < real_of_int n - 1 / 2"
  then have "q < real_of_int n" by linarith
  then have f: "\<lfloor>q\<rfloor> \<le> n - 1" by (simp add: floor_less_iff)
  show ?thesis
  proof (cases "\<lfloor>q\<rfloor> = n - 1")
    case True
    then have "q - real_of_int \<lfloor>q\<rfloor> < 1 / 2" using a by simp
    then show ?thesis using True by (simp add: rne_def)
  next
    case False
    then show ?thesis using f rne_floor [of q] by linarith
  qed
qed

lemma double_grid:
  assumes "binary64 x = x"
  shows "\<exists>n :: int. x = of_int n * 2 powi (- 1074)"
proof -
  define j where "j = nat (expo x + 1022)"
  have "expo x - 52 = int j + (- 1074)"
    using expo_ge [of x] by (simp add: j_def)
  then have "(2::real) powi (expo x - 52) = 2 powi (int j + (- 1074))"
    by (rule arg_cong)
  also have "\<dots> = 2 powi (int j) * 2 powi (- 1074)"
    by (rule power_int_add) simp
  also have "\<dots> = of_int (2 ^ j) * 2 powi (- 1074)"
    by simp
  finally have u: "ulp x = of_int (2 ^ j) * 2 powi (- 1074)"
    by (simp only: ulp_expo)
  have "x = of_int (rne (x / ulp x)) * ulp x"
    using assms by (simp only: binary64_def)
  also have "\<dots> = of_int (rne (x / ulp x) * 2 ^ j) * 2 powi (- 1074)"
    unfolding u by simp
  finally show ?thesis by blast
qed

lemma small_difference_exact:
  assumes "binary64 t = t" and "binary64 c = c" and "\<bar>t - c\<bar> < 2 powi (- 1022)"
  shows "binary64 (t - c) = t - c"
proof -
  from double_grid [OF assms(1)] obtain a :: int where a: "t = of_int a * 2 powi (- 1074)"
    by blast
  from double_grid [OF assms(2)] obtain b :: int where b: "c = of_int b * 2 powi (- 1074)"
    by blast
  have x: "t - c = of_int (a - b) * 2 powi (- 1074)"
    by (simp add: a b left_diff_distrib)
  have "(- 1022 :: int) = 52 + (- 1074)" by simp
  then have "(2::real) powi (- 1022) = 2 powi (52 + (- 1074))" by (rule arg_cong)
  also have "\<dots> = 2 powi 52 * 2 powi (- 1074)"
    by (rule power_int_add) simp
  finally have p: "(2::real) powi (- 1022) = 2 ^ 52 * 2 powi (- 1074)"
    by simp
  have "\<bar>real_of_int (a - b)\<bar> * 2 powi (- 1074) < 2 ^ 52 * 2 powi (- 1074)"
    using assms(3) unfolding x p by (simp add: abs_mult)
  then have "\<bar>real_of_int (a - b)\<bar> < 2 ^ 52"
    by (simp only: mult_less_cancel_right_pos pow2_pos)
  then have "\<bar>real_of_int (a - b)\<bar> < real_of_int (2 ^ 53)"
    by simp
  then have "real_of_int \<bar>a - b\<bar> < real_of_int (2 ^ 53)"
    by simp
  then have r: "\<bar>a - b\<bar> < 2 ^ 53"
    by (simp only: of_int_less_iff)
  show ?thesis
    using x r by (rule binary64_representable) simp
qed

lemma double_below_one:
  assumes "binary64 e = e" and "0 < e" and "e < 1"
  shows "e \<le> 1 - 1 / 2 ^ 53"
proof (rule ccontr)
  assume "\<not> e \<le> 1 - 1 / 2 ^ 53"
  then have lo: "1 - 1 / 2 ^ 53 < e" by simp
  have p: "(2::real) powi (- 1 - 52) = 1 / 2 ^ 53"
  proof -
    have "(- 1 - 52 :: int) = - 53" by simp
    then have "(2::real) powi (- 1 - 52) = 2 powi (- 53)" by (rule arg_cong)
    also have "\<dots> = 1 / 2 powi 53" by (rule pow2_neg)
    finally show ?thesis by simp
  qed
  have "2 powi (- 1) \<le> \<bar>e\<bar>" and "\<bar>e\<bar> < 2 powi (- 1 + 1)"
    using lo assms(3) by (simp_all add: power_int_minus)
  then have "binary64 e = real_of_int (rne (e / 2 powi (- 1 - 52))) * 2 powi (- 1 - 52)"
    by (rule binary64_eval) simp
  then have "e = real_of_int (rne (e / 2 powi (- 1 - 52))) / 2 ^ 53"
    unfolding assms(1) p by simp
  then obtain n :: int where n: "e = real_of_int n / 2 ^ 53"
    by blast
  have "real_of_int n / 2 ^ 53 < 1"
    using assms(3) unfolding n .
  then have "real_of_int n < real_of_int (2 ^ 53)"
    by (simp add: pos_divide_less_eq)
  then have "n < 2 ^ 53" by (simp only: of_int_less_iff)
  then have "n \<le> 2 ^ 53 - 1" by simp
  then have "real_of_int n \<le> real_of_int (2 ^ 53 - 1)" by (simp only: of_int_le_iff)
  then have "real_of_int n / 2 ^ 53 \<le> real_of_int (2 ^ 53 - 1) / 2 ^ 53"
    by (intro divide_right_mono) simp_all
  also have "\<dots> = 1 - 1 / 2 ^ 53"
    by simp
  finally show False
    using lo unfolding n by simp
qed

text \<open>
  A value that rounding has raised, times a factor below 1, rounds to at most the value
  before the rounding.
\<close>

lemma rounded_up_product:
  assumes n: "2 powi (- 1022) \<le> x" and up: "x < binary64 x"
    and e0: "0 < e" and e1: "e \<le> 1 - 1 / 2 ^ 53"
  shows "binary64 (binary64 x * e) \<le> x"
proof -
  define E where "E = expo x"
  define u :: real where "u = 2 powi (E - 52)"
  define m where "m = rne (x / u)"
  have x0: "0 < x"
    using n pow2_pos [of "- 1022"] by linarith
  have ax: "\<bar>x\<bar> = x" using x0 by simp
  have u0: "0 < u" by (simp add: u_def)
  have E: "- 1022 \<le> E" unfolding E_def by (rule expo_ge)
  have lo: "2 powi E \<le> x"
    using expo_lower [of x] n ax by (simp add: E_def)
  have hi: "x < 2 powi (E + 1)"
    using expo_upper [of x] ax by (simp add: E_def)
  have pE: "2 powi E = 2 ^ 52 * u" unfolding u_def by (rule pow2_52)
  have pE1: "2 powi (E + 1) = 2 ^ 53 * u" unfolding u_def by (rule pow2_53)
  have d: "binary64 x = real_of_int m * u"
    by (simp add: binary64_def ulp_expo m_def u_def E_def)
  have q1: "x / u < 2 ^ 53"
    using hi u0 unfolding pE1 by (simp add: pos_divide_less_eq)
  have "x / u \<le> real_of_int (2 ^ 53)" using q1 by simp
  then have "rne (x / u) \<le> rne (real_of_int (2 ^ 53))" by (rule rne_mono)
  then have m53: "m \<le> 2 ^ 53" by (simp only: m_def rne_of_int)
  have "x < real_of_int m * u" using up unfolding d .
  then have xm: "x / u < real_of_int m"
    using u0 by (simp add: pos_divide_less_eq)
  have "2 ^ 52 \<le> x / u"
    using lo u0 unfolding pE by (simp add: pos_le_divide_eq)
  then have "real_of_int (2 ^ 52) < real_of_int m"
    using xm by simp
  then have "2 ^ 52 < m" by (simp only: of_int_less_iff)
  then have m52: "2 ^ 52 + 1 \<le> m" by simp
  have rm52: "2 ^ 52 + 1 \<le> real_of_int m"
  proof -
    have "real_of_int (2 ^ 52 + 1) \<le> real_of_int m"
      using m52 by (simp only: of_int_le_iff)
    then show ?thesis by simp
  qed
  have rm53: "real_of_int m \<le> 2 ^ 53"
  proof -
    have "real_of_int m \<le> real_of_int (2 ^ 53)"
      using m53 by (simp only: of_int_le_iff)
    then show ?thesis by simp
  qed
  define q where "q = (real_of_int m - real_of_int m / 2 ^ 53) * u"
  have "binary64 x * e \<le> binary64 x * (1 - 1 / 2 ^ 53)"
    using e1 x0 binary64_nonneg [of x] by (intro mult_left_mono) simp_all
  also have "\<dots> = q"
    unfolding d q_def by (simp add: algebra_simps)
  finally have le: "binary64 x * e \<le> q" .
  have ql: "2 ^ 52 \<le> real_of_int m - real_of_int m / 2 ^ 53"
    using rm52 by simp
  have qh: "real_of_int m - real_of_int m / 2 ^ 53 < 2 ^ 53"
    using rm53 rm52 by simp
  have qm: "real_of_int m - real_of_int m / 2 ^ 53 < real_of_int m - 1 / 2"
    using rm52 by simp
  have q0: "0 \<le> q" unfolding q_def using ql u0 by simp
  have "2 ^ 52 * u \<le> q"
    unfolding q_def using ql u0 by (intro mult_right_mono) simp_all
  then have b1: "2 powi E \<le> \<bar>q\<bar>" using q0 unfolding pE by simp
  have "q < 2 ^ 53 * u"
    unfolding q_def using qh u0 by (intro mult_strict_right_mono) simp_all
  then have b2: "\<bar>q\<bar> < 2 powi (E + 1)" using q0 unfolding pE1 by simp
  have "binary64 q = real_of_int (rne (q / 2 powi (E - 52))) * 2 powi (E - 52)"
    using b1 b2 E by (rule binary64_eval)
  then have bq: "binary64 q = real_of_int (rne (q / u)) * u"
    by (simp only: u_def)
  have "q / u = real_of_int m - real_of_int m / 2 ^ 53"
    using u0 by (simp add: q_def)
  then have "q / u < real_of_int m - 1 / 2"
    using qm by simp
  then have "rne (q / u) \<le> m - 1" by (rule rne_below)
  also have "m - 1 \<le> \<lfloor>x / u\<rfloor>"
    using rne_floor [of "x / u"] by (simp add: m_def)
  finally have "real_of_int (rne (q / u)) \<le> real_of_int \<lfloor>x / u\<rfloor>"
    by (simp only: of_int_le_iff)
  also have "\<dots> \<le> x / u" by simp
  finally have "real_of_int (rne (q / u)) * u \<le> x / u * u"
    using u0 by (intro mult_right_mono) simp_all
  then have "binary64 q \<le> x"
    using u0 by (simp add: bq)
  moreover have "binary64 (binary64 x * e) \<le> binary64 q"
    using le by (rule binary64_mono)
  ultimately show ?thesis by linarith
qed

section \<open>The scroll handler in binary64\<close>

lemma binary64_pow2_1023: "binary64 (2 ^ 1023) = 2 ^ 1023"
  by (rule binary64_representable [where r = 1 and k = 1023]) simp_all

lemma binary64_abs_le:
  assumes "\<bar>a\<bar> \<le> b" and "binary64 b = b"
  shows "\<bar>binary64 a\<bar> \<le> b"
proof -
  have "binary64 a \<le> binary64 b"
    using assms(1) by (intro binary64_mono) simp
  moreover have "binary64 (- b) \<le> binary64 a"
    using assms(1) by (intro binary64_mono) simp
  ultimately show ?thesis
    using assms(2) by (simp add: binary64_minus abs_le_iff)
qed

lemma round64_Num:
  assumes "\<bar>a\<bar> \<le> 2 ^ 1023"
  shows "round64 (Num a) = Num (binary64 a)"
proof -
  have "\<bar>binary64 a\<bar> \<le> 2 ^ 1023"
    using assms binary64_pow2_1023 by (rule binary64_abs_le)
  moreover have "(2::real) ^ 1023 < 2 ^ 1024"
    by simp
  ultimately have "\<not> 2 ^ 1024 \<le> \<bar>binary64 a\<bar>"
    by linarith
  then show ?thesis
    by simp
qed

lemma round64_shape: "round64 (Num a) = PosInf \<or> round64 (Num a) = NegInf \<or> round64 (Num a) = Num (binary64 a)"
  by simp

lemma round64_NaN_iff: "round64 x = NaN \<longleftrightarrow> x = NaN"
  by (cases x) simp_all

lemma clamp_shape:
  "Math_max (Num 0) (Math_min (Num 1) x) = NaN
   \<or> (\<exists>f. Math_max (Num 0) (Math_min (Num 1) x) = Num f \<and> 0 \<le> f \<and> f \<le> 1)"
  by (cases x) auto

lemma scrollFraction64_shape:
  "scrollFraction64 m = NaN \<or> (\<exists>f. scrollFraction64 m = Num f \<and> 0 \<le> f \<and> f \<le> 1)"
  unfolding scrollFraction64_def Let_def by (rule clamp_shape)

lemma scrollFraction64_range: "scrollFraction64 m = Num f \<Longrightarrow> 0 \<le> f \<and> f \<le> 1"
  using scrollFraction64_shape [of m] by auto

lemma totalFrames_minus_one:
  assumes "n < 2 ^ 32"
  shows "js_sub64 (Num (real n)) (Num 1) = Num (real n - 1)"
proof -
  have r: "real n - 1 = real_of_int (int n - 1)"
    by simp
  have "\<bar>int n - 1\<bar> < 2 ^ 53"
    using assms by simp
  then have b: "binary64 (real n - 1) = real n - 1"
    unfolding r by (rule binary64_of_int)
  have "real n < 2 ^ 32"
    using assms by (metis of_nat_less_iff of_nat_numeral of_nat_power)
  then have "\<bar>real n - 1\<bar> \<le> 2 ^ 1023"
    by simp
  then have "round64 (Num (real n - 1)) = Num (binary64 (real n - 1))"
    by (rule round64_Num)
  then show ?thesis
    by (simp add: js_sub64_def b)
qed

lemma product64:
  assumes "0 \<le> f" and "f \<le> 1" and "n < 2 ^ 32"
  shows "js_mul64 (Num f) (Num (real n)) = Num (binary64 (f * real n))"
proof -
  have "real n < 2 ^ 32"
    using assms(3) by (metis of_nat_less_iff of_nat_numeral of_nat_power)
  moreover have "f * real n \<le> 1 * real n"
    using assms(2) by (intro mult_right_mono) simp_all
  moreover have "0 \<le> f * real n"
    using assms(1) by simp
  ultimately have "\<bar>f * real n\<bar> \<le> 2 ^ 1023"
    by simp
  then have "round64 (Num (f * real n)) = Num (binary64 (f * real n))"
    by (rule round64_Num)
  then show ?thesis
    by (simp add: js_mul64_def)
qed

lemma onScroll64_target:
  assumes "scrollFraction64 m = Num f" and "totalFrames s < 2 ^ 32"
  shows "targetFrame (onScroll64 s m)
    = Num (min (real (totalFrames s) - 1) (binary64 (f * real (totalFrames s))))"
proof -
  have f: "0 \<le> f" "f \<le> 1"
    using scrollFraction64_range [OF assms(1)] by simp_all
  show ?thesis
    by (simp add: onScroll64_def assms(1) totalFrames_minus_one [OF assms(2)]
        product64 [OF f assms(2)] min_def)
qed

lemma round64_of_int: "\<bar>n\<bar> < 2 ^ 53 \<Longrightarrow> round64 (Num (real_of_int n)) = Num (real_of_int n)"
proof -
  assume n: "\<bar>n\<bar> < 2 ^ 53"
  then have "real_of_int \<bar>n\<bar> < 2 ^ 53"
    by (metis of_int_less_iff of_int_numeral of_int_power)
  then have "\<bar>real_of_int n\<bar> \<le> 2 ^ 1023"
    by simp
  then have "round64 (Num (real_of_int n)) = Num (binary64 (real_of_int n))"
    by (rule round64_Num)
  then show ?thesis
    by (simp only: binary64_of_int [OF n])
qed

lemma fraction_tenth:
  "scrollFraction64 \<lparr>scrollY = 100, scrollTop = 100, scrollHeight = 1800, innerHeight = 800\<rparr>
     = Num (3602879701896397 / 2 ^ 55)"
proof -
  have m: "js_sub64 (Num 1800) (Num 800) = Num 1000"
    using round64_of_int [of 1000] by (simp add: js_sub64_def)
  have "binary64 (1 / 10) = real_of_int (rne ((1 / 10) / 2 powi (- 4 - 52))) * 2 powi (- 4 - 52)"
    by (rule binary64_eval) simp_all
  also have "\<dots> = 3602879701896397 / 2 ^ 55"
    by (simp add: rne_def power_int_minus)
  finally have v: "binary64 (1 / 10) = 3602879701896397 / 2 ^ 55" .
  have "round64 (Num (1 / 10)) = Num (binary64 (1 / 10))"
    by (rule round64_Num) simp
  then have r: "round64 (Num (1 / 10)) = Num (3602879701896397 / 2 ^ 55)"
    by (simp only: v)
  have "js_div (Num 100) (Num 1000) = Num (1 / 10)"
    by simp
  then have d: "js_div64 (Num 100) (Num 1000) = Num (3602879701896397 / 2 ^ 55)"
    by (simp only: js_div64_def r)
  show ?thesis
    by (simp add: scrollFraction64_def js_or_def m d)
qed

lemma product_tenth:
  "binary64 (3602879701896397 / 2 ^ 55 * 248) = 6980579422424269 / 2 ^ 48"
proof -
  have "binary64 (3602879701896397 / 2 ^ 55 * 248)
      = real_of_int (rne ((3602879701896397 / 2 ^ 55 * 248) / 2 powi (4 - 52))) * 2 powi (4 - 52)"
    by (rule binary64_eval) simp_all
  also have "\<dots> = 6980579422424269 / 2 ^ 48"
    by (simp add: rne_def power_int_minus)
  finally show ?thesis .
qed

lemma fraction_29:
  "scrollFraction64 \<lparr>scrollY = 29, scrollTop = 29, scrollHeight = 900, innerHeight = 800\<rparr>
     = Num (5224175567749775 / 2 ^ 54)"
proof -
  have m: "js_sub64 (Num 900) (Num 800) = Num 100"
    using round64_of_int [of 100] by (simp add: js_sub64_def)
  have "binary64 (29 / 100) = real_of_int (rne ((29 / 100) / 2 powi (- 2 - 52))) * 2 powi (- 2 - 52)"
    by (rule binary64_eval) simp_all
  also have "\<dots> = 5224175567749775 / 2 ^ 54"
    by (simp add: rne_def power_int_minus)
  finally have v: "binary64 (29 / 100) = 5224175567749775 / 2 ^ 54" .
  have "round64 (Num (29 / 100)) = Num (binary64 (29 / 100))"
    by (rule round64_Num) simp
  then have r: "round64 (Num (29 / 100)) = Num (5224175567749775 / 2 ^ 54)"
    by (simp only: v)
  have "js_div (Num 29) (Num 100) = Num (29 / 100)"
    by simp
  then have d: "js_div64 (Num 29) (Num 100) = Num (5224175567749775 / 2 ^ 54)"
    by (simp only: js_div64_def r)
  show ?thesis
    by (simp add: scrollFraction64_def js_or_def m d)
qed

lemma product_29:
  "binary64 (5224175567749775 / 2 ^ 54 * 100) = 8162774324609023 / 2 ^ 48"
proof -
  have "binary64 (5224175567749775 / 2 ^ 54 * 100)
      = real_of_int (rne ((5224175567749775 / 2 ^ 54 * 100) / 2 powi (4 - 52))) * 2 powi (4 - 52)"
    by (rule binary64_eval) simp_all
  also have "\<dots> = 8162774324609023 / 2 ^ 48"
    by (simp add: rne_def power_int_minus)
  finally show ?thesis .
qed

lemma fraction_bottom:
  "scrollFraction64 \<lparr>scrollY = 1000, scrollTop = 1000, scrollHeight = 1800, innerHeight = 800\<rparr>
     = Num 1"
proof -
  have m: "js_sub64 (Num 1800) (Num 800) = Num 1000"
    using round64_of_int [of 1000] by (simp add: js_sub64_def)
  have d: "js_div64 (Num 1000) (Num 1000) = Num 1"
    using round64_of_int [of 1] by (simp add: js_div64_def)
  show ?thesis
    by (simp add: scrollFraction64_def js_or_def m d)
qed

lemma HeroCanvas64_fields [simp]:
  "totalFrames (HeroCanvas64 n op cs) = n"
  "currentFrame (HeroCanvas64 n op cs) = Num 0"
  "targetFrame (HeroCanvas64 n op cs) = Num 0"
  by (simp_all add: HeroCanvas64_def HeroCanvas_def)

text \<open>
  C1 (as amended). For a scroll measurement whose fraction is a number \<open>f\<close>, and a frame count
  N with 1 \<le> N < 2^32, \<open>f\<close> lies in [0,1] and the handler of script.js sets
  \<^verbatim>\<open>targetFrame\<close> to clamp(f * N, 0, N-1), the product as computed (rounded to binary64)
  and not floored. Fraction 0 gives frame 0 and fraction 1 gives frame N-1.
\<close>

theorem onScroll_target_continuous:
  assumes "scrollFraction64 m = Num f" and "1 \<le> totalFrames s" and "totalFrames s < 2 ^ 32"
  shows "0 \<le> f \<and> f \<le> 1
    \<and> targetFrame (onScroll64 s m)
        = Num (min (real (totalFrames s) - 1) (binary64 (f * real (totalFrames s))))
    \<and> targetFrame (onScroll64 s m)
        = Num (max 0 (min (real (totalFrames s) - 1) (binary64 (f * real (totalFrames s)))))
    \<and> (if f = 0 then targetFrame (onScroll64 s m) = Num 0
        else if f = 1 then targetFrame (onScroll64 s m) = Num (real (totalFrames s) - 1)
        else True)"
proof -
  let ?n = "totalFrames s"
  have range: "0 \<le> f \<and> f \<le> 1"
    using assms(1) by (rule scrollFraction64_range)
  have target: "targetFrame (onScroll64 s m) = Num (min (real ?n - 1) (binary64 (f * real ?n)))"
    using assms(1,3) by (rule onScroll64_target)
  have "0 \<le> binary64 (f * real ?n)"
    using range by (intro binary64_nonneg) simp
  then have "0 \<le> min (real ?n - 1) (binary64 (f * real ?n))"
    using assms(2) by simp
  then have clamp: "targetFrame (onScroll64 s m)
      = Num (max 0 (min (real ?n - 1) (binary64 (f * real ?n))))"
    by (simp add: target max_def)
  have zero: "f = 0 \<Longrightarrow> targetFrame (onScroll64 s m) = Num 0"
    using assms(2) by (simp add: target)
  have "binary64 (real ?n) = real ?n"
    using assms(3) by (intro binary64_of_nat) simp
  then have one: "f = 1 \<Longrightarrow> targetFrame (onScroll64 s m) = Num (real ?n - 1)"
    by (simp add: target)
  show ?thesis
    using range target clamp zero one by simp
qed

theorem onScroll_target_continuous_witness:
  "targetFrame (onScroll64 (HeroCanvas64 248 (Num 0) [])
      \<lparr>scrollY = 100, scrollTop = 100, scrollHeight = 1800, innerHeight = 800\<rparr>)
     = Num (6980579422424269 / 2 ^ 48)
   \<and> targetFrame (onScroll64 (HeroCanvas64 100 (Num 0) [])
      \<lparr>scrollY = 29, scrollTop = 29, scrollHeight = 900, innerHeight = 800\<rparr>)
     = Num (8162774324609023 / 2 ^ 48)
   \<and> targetFrame (onScroll64 (HeroCanvas64 248 (Num 0) [])
      \<lparr>scrollY = 1000, scrollTop = 1000, scrollHeight = 1800, innerHeight = 800\<rparr>)
     = Num 247"
proof -
  let ?m = "\<lparr>scrollY = 100, scrollTop = 100, scrollHeight = 1800, innerHeight = 800\<rparr>"
  let ?k = "\<lparr>scrollY = 29, scrollTop = 29, scrollHeight = 900, innerHeight = 800\<rparr>"
  let ?b = "\<lparr>scrollY = 1000, scrollTop = 1000, scrollHeight = 1800, innerHeight = 800\<rparr>"
  let ?s = "HeroCanvas64 248 (Num 0) []"
  let ?r = "HeroCanvas64 100 (Num 0) []"
  have n: "1 \<le> totalFrames ?s" "totalFrames ?s < 2 ^ 32"
    and n': "1 \<le> totalFrames ?r" "totalFrames ?r < 2 ^ 32"
    by simp_all
  have tf: "real (totalFrames ?s) = 248" and tf': "real (totalFrames ?r) = 100"
    by simp_all
  have v1: "min (248 - 1) (6980579422424269 / 2 ^ 48 :: real) = 6980579422424269 / 2 ^ 48"
    and v2: "min (100 - 1) (8162774324609023 / 2 ^ 48 :: real) = 8162774324609023 / 2 ^ 48"
    by simp_all
  from onScroll_target_continuous [OF fraction_tenth n]
  have "targetFrame (onScroll64 ?s ?m)
      = Num (min (real (totalFrames ?s) - 1)
                 (binary64 (3602879701896397 / 2 ^ 55 * real (totalFrames ?s))))"
    by blast
  then have a: "targetFrame (onScroll64 ?s ?m) = Num (6980579422424269 / 2 ^ 48)"
    unfolding tf product_tenth v1 .
  from onScroll_target_continuous [OF fraction_29 n']
  have "targetFrame (onScroll64 ?r ?k)
      = Num (min (real (totalFrames ?r) - 1)
                 (binary64 (5224175567749775 / 2 ^ 54 * real (totalFrames ?r))))"
    by blast
  then have b: "targetFrame (onScroll64 ?r ?k) = Num (8162774324609023 / 2 ^ 48)"
    unfolding tf' product_29 v2 .
  from onScroll_target_continuous [OF fraction_bottom n]
  have "if (1::real) = 0 then targetFrame (onScroll64 ?s ?b) = Num 0
        else if (1::real) = 1 then targetFrame (onScroll64 ?s ?b) = Num (real (totalFrames ?s) - 1)
        else True"
    by blast
  then have c: "targetFrame (onScroll64 ?s ?b) = Num 247"
    unfolding tf by simp
  show ?thesis
    using a b c by blast
qed

lemma target_tenth:
  "targetFrame (onScroll64 (HeroCanvas64 248 (Num 0) [])
      \<lparr>scrollY = 100, scrollTop = 100, scrollHeight = 1800, innerHeight = 800\<rparr>)
     = Num (6980579422424269 / 2 ^ 48)"
proof -
  let ?s = "HeroCanvas64 248 (Num 0) []"
  have n: "totalFrames ?s < 2 ^ 32" and tf: "real (totalFrames ?s) = 248"
    by simp_all
  have v1: "min (248 - 1) (6980579422424269 / 2 ^ 48 :: real) = 6980579422424269 / 2 ^ 48"
    by simp
  show ?thesis
    unfolding onScroll64_target [OF fraction_tenth n] tf product_tenth v1 ..
qed

text \<open>
  C1 as the specification states it (the target is the floored, clamped product) does not
  hold of script.js. At scroll position 100 of 1000 with 248 frames the fraction is the
  binary64 value of 0.1 and the target is the binary64 value of 24.8, which is
  6980579422424269 / 2^48; the floored, clamped product is 24.
\<close>

theorem onScroll_target_not_floored:
  "scrollFraction64 \<lparr>scrollY = 100, scrollTop = 100, scrollHeight = 1800, innerHeight = 800\<rparr>
     = Num (3602879701896397 / 2 ^ 55)
   \<and> targetFrame (onScroll64 (HeroCanvas64 248 (Num 0) [])
        \<lparr>scrollY = 100, scrollTop = 100, scrollHeight = 1800, innerHeight = 800\<rparr>)
     = Num (6980579422424269 / 2 ^ 48)
   \<and> targetFrame (onScroll64 (HeroCanvas64 248 (Num 0) [])
        \<lparr>scrollY = 100, scrollTop = 100, scrollHeight = 1800, innerHeight = 800\<rparr>)
     \<noteq> Num (of_int (max 0 (min (248 - 1) \<lfloor>3602879701896397 / 2 ^ 55 * (248 :: real)\<rfloor>)))"
proof -
  have "\<lfloor>3602879701896397 / 2 ^ 55 * (248 :: real)\<rfloor> = 24"
    by (rule floor_unique) simp_all
  then have "Num (of_int (max 0 (min (248 - 1) \<lfloor>3602879701896397 / 2 ^ 55 * (248 :: real)\<rfloor>)))
      = Num 24"
    by simp
  moreover have "Num (6980579422424269 / 2 ^ 48) \<noteq> Num 24"
    by simp
  ultimately show ?thesis
    unfolding target_tenth fraction_tenth by simp
qed

section \<open>The two variants\<close>



section \<open>Temporal smoothing in binary64\<close>

lemma ease_step_minus: "ease_step (- t) e (- c) = - ease_step t e c"
proof -
  have "binary64 (- t - - c) = - binary64 (t - c)"
    using binary64_minus [of "t - c"] by simp
  then have "binary64 (binary64 (- t - - c) * e) = - binary64 (binary64 (t - c) * e)"
    using binary64_minus [of "binary64 (t - c) * e"] by simp
  then have "binary64 (- c + binary64 (binary64 (- t - - c) * e))
      = - binary64 (c + binary64 (binary64 (t - c) * e))"
    using binary64_minus [of "c + binary64 (binary64 (t - c) * e)"] by simp
  then show ?thesis
    by (simp only: ease_step_def)
qed

lemma increment_bounds:
  assumes c: "binary64 c = c" and t: "binary64 t = t" and ct: "c \<le> t"
    and e0: "0 < e" and e1: "e < 1" and e: "binary64 e = e"
  shows "0 \<le> binary64 (binary64 (t - c) * e) \<and> binary64 (binary64 (t - c) * e) \<le> t - c"
proof -
  define x where "x = t - c"
  have x0: "0 \<le> x" using ct by (simp add: x_def)
  have d0: "0 \<le> binary64 x" using x0 by (rule binary64_nonneg)
  have p0: "0 \<le> binary64 x * e" using d0 e0 by simp
  have i0: "0 \<le> binary64 (binary64 x * e)" using p0 by (rule binary64_nonneg)
  have "binary64 x * e \<le> binary64 x * 1"
    using d0 e1 by (intro mult_left_mono) simp_all
  then have "binary64 (binary64 x * e) \<le> binary64 (binary64 x * 1)"
    by (rule binary64_mono)
  then have id: "binary64 (binary64 x * e) \<le> binary64 x"
    by simp
  have "binary64 (binary64 x * e) \<le> x"
  proof (cases "binary64 x \<le> x")
    case True
    then show ?thesis using id by linarith
  next
    case False
    then have up: "x < binary64 x" by simp
    have "\<not> \<bar>t - c\<bar> < 2 powi (- 1022)"
      using small_difference_exact [OF t c] up by (auto simp add: x_def)
    then have n: "2 powi (- 1022) \<le> x"
      using x0 by (simp add: x_def)
    have "e \<le> 1 - 1 / 2 ^ 53"
      using e e0 e1 by (rule double_below_one)
    with n up e0 show ?thesis by (rule rounded_up_product)
  qed
  then show ?thesis
    using i0 by (simp add: x_def)
qed

lemma ease_step_up:
  assumes "binary64 c = c" and "binary64 t = t" and "c \<le> t"
    and "0 < e" and "e < 1" and "binary64 e = e"
  shows "c \<le> ease_step t e c \<and> ease_step t e c \<le> t"
proof -
  let ?i = "binary64 (binary64 (t - c) * e)"
  have i: "0 \<le> ?i \<and> ?i \<le> t - c"
    using assms by (rule increment_bounds)
  have "binary64 c \<le> binary64 (c + ?i)"
    using i by (intro binary64_mono) simp
  moreover have "binary64 (c + ?i) \<le> binary64 t"
    using i by (intro binary64_mono) simp
  ultimately show ?thesis
    by (simp add: ease_step_def assms(1,2))
qed

lemma ease_step_down:
  assumes "binary64 c = c" and "binary64 t = t" and "t \<le> c"
    and "0 < e" and "e < 1" and "binary64 e = e"
  shows "t \<le> ease_step t e c \<and> ease_step t e c \<le> c"
proof -
  have "- c \<le> ease_step (- t) e (- c) \<and> ease_step (- t) e (- c) \<le> - t"
    using assms by (intro ease_step_up) (simp_all add: binary64_minus)
  then show ?thesis
    by (simp add: ease_step_minus)
qed

lemma ease_step_double: "binary64 (ease_step t e c) = ease_step t e c"
  by (simp add: ease_step_def)

text \<open>One step shrinks the distance by the factor \<open>1 - e / 2\<close>, up to the rounding error.\<close>

lemma ease_step_rate_up:
  assumes c: "binary64 c = c" and t: "binary64 t = t" and ct: "c \<le> t"
    and e0: "0 < e" and e1: "e < 1" and ed: "binary64 e = e" and cM: "\<bar>c\<bar> \<le> M" and tM: "\<bar>t\<bar> \<le> M"
  shows "t - ease_step t e c \<le> (t - c) * (1 - e / 2) + rounding_floor M"
proof -
  define u :: real where "u = 1 / 2 ^ 53"
  define h :: real where "h = 2 powi (- 1075)"
  define x where "x = t - c"
  define d where "d = binary64 x"
  define p where "p = d * e"
  define i where "i = binary64 p"
  define y where "y = c + i"
  have u: "0 < u" "u \<le> 1 / 4" by (simp_all add: u_def)
  have h: "0 < h" by (simp add: h_def)
  have x0: "0 \<le> x" using ct by (simp add: x_def)
  have err: "\<bar>binary64 z - z\<bar> \<le> \<bar>z\<bar> * u + h" for z
    using binary64_error [of z] by (simp add: u_def h_def)
  have d0: "0 \<le> d" unfolding d_def using x0 by (rule binary64_nonneg)
  have d1: "x - x * u - h \<le> d"
    using err [of x] x0 by (simp add: d_def abs_le_iff)
  have p0: "0 \<le> p" using d0 e0 by (simp add: p_def)
  have "(x - x * u - h) * e \<le> d * e"
    using d1 e0 by (intro mult_right_mono) simp_all
  then have p1: "(x - x * u - h) * e \<le> p" by (simp add: p_def)
  have i1: "p - p * u - h \<le> i"
    using err [of p] p0 by (simp add: i_def abs_le_iff)
  have "p * (1 - u) \<ge> ((x - x * u - h) * e) * (1 - u)"
    using p1 u by (intro mult_right_mono) simp_all
  then have i2: "((x - x * u - h) * e) * (1 - u) - h \<le> i"
    using i1 by (simp add: algebra_simps)
  have xe: "0 \<le> x * e" using x0 e0 by simp
  have "x * e * (1 - 2 * u) - 2 * h \<le> ((x - x * u - h) * e) * (1 - u) - h"
  proof -
    have "((x - x * u - h) * e) * (1 - u) = x * e * (1 - u) * (1 - u) - h * e * (1 - u)"
      by (simp add: algebra_simps)
    moreover have "x * e * (1 - 2 * u) \<le> x * e * ((1 - u) * (1 - u))"
    proof (intro mult_left_mono xe)
      have "(1 - u) * (1 - u) = 1 - 2 * u + u * u" by (simp add: algebra_simps)
      moreover have "0 \<le> u * u" by simp
      ultimately show "1 - 2 * u \<le> (1 - u) * (1 - u)" by linarith
    qed
    moreover have "h * e * (1 - u) \<le> h * 1 * 1"
      using h e0 e1 u by (intro mult_mono) simp_all
    ultimately show ?thesis by (simp add: mult.assoc)
  qed
  then have i3: "x * e * (1 - 2 * u) - 2 * h \<le> i"
    using i2 by linarith
  have ib: "0 \<le> i \<and> i \<le> x"
    unfolding i_def p_def d_def x_def using c t ct e0 e1 ed by (rule increment_bounds)
  have yM: "\<bar>y\<bar> \<le> M"
    using ib cM tM by (simp add: y_def x_def abs_le_iff)
  have "y - (\<bar>y\<bar> * u + h) \<le> binary64 y"
    using err [of y] by (simp add: abs_le_iff)
  moreover have "\<bar>y\<bar> * u \<le> M * u"
    using yM u by (intro mult_right_mono) simp_all
  ultimately have y1: "y - M * u - h \<le> binary64 y" by linarith
  have es: "ease_step t e c = binary64 y"
    by (simp add: ease_step_def y_def i_def p_def d_def x_def)
  have "t - binary64 y \<le> t - y + M * u + h"
    using y1 by linarith
  also have "\<dots> = x - i + M * u + h"
    by (simp add: y_def x_def)
  also have "\<dots> \<le> x - (x * e * (1 - 2 * u) - 2 * h) + M * u + h"
    using i3 by linarith
  also have "\<dots> = x - x * e * (1 - 2 * u) + (M * u + 3 * h)"
    by simp
  also have "\<dots> \<le> x - x * e * (1 / 2) + (M * u + 3 * h)"
  proof -
    have "x * e * (1 / 2) \<le> x * e * (1 - 2 * u)"
      using u by (intro mult_left_mono xe) simp
    then show ?thesis by linarith
  qed
  also have "\<dots> = (t - c) * (1 - e / 2) + rounding_floor M"
  proof -
    have "x - x * e * (1 / 2) = x * (1 - e / 2)"
      by (simp add: right_diff_distrib)
    moreover have "M * u + 3 * h = rounding_floor M"
      by (simp add: rounding_floor_def u_def h_def)
    ultimately show ?thesis
      by (simp only: x_def)
  qed
  finally show ?thesis
    unfolding es .
qed

lemma rounding_floor_nonneg: "0 \<le> M \<Longrightarrow> 0 \<le> rounding_floor M"
  by (simp add: rounding_floor_def)

lemma ease_iterate_minus:
  "(ease_step (- t) e ^^ n) (- c) = - (ease_step t e ^^ n) c"
  by (induction n) (simp_all add: ease_step_minus)

lemma ease_iterate_up:
  assumes c: "binary64 c = c" and t: "binary64 t = t" and ct: "c \<le> t"
    and e0: "0 < e" and e1: "e < 1" and ed: "binary64 e = e" and cM: "\<bar>c\<bar> \<le> M" and tM: "\<bar>t\<bar> \<le> M"
  shows "binary64 ((ease_step t e ^^ n) c) = (ease_step t e ^^ n) c
    \<and> c \<le> (ease_step t e ^^ n) c
    \<and> (ease_step t e ^^ n) c \<le> (ease_step t e ^^ Suc n) c
    \<and> (ease_step t e ^^ Suc n) c \<le> t
    \<and> t - (ease_step t e ^^ n) c \<le> (t - c) * (1 - e / 2) ^ n + 2 * rounding_floor M / e"
proof (induction n)
  case 0
  have "0 \<le> M" using cM by linarith
  then have "0 \<le> 2 * rounding_floor M / e"
    using e0 rounding_floor_nonneg [of M] by simp
  then show ?case
    using ease_step_up [OF c t ct e0 e1 ed] c by simp
next
  case (Suc n)
  let ?a = "(ease_step t e ^^ n) c"
  let ?b = "(ease_step t e ^^ Suc n) c"
  let ?B = "rounding_floor M"
  have b: "?b = ease_step t e ?a" by simp
  from Suc have a: "binary64 ?a = ?a" "c \<le> ?a" "?a \<le> ?b" "?b \<le> t"
    and rate: "t - ?a \<le> (t - c) * (1 - e / 2) ^ n + 2 * ?B / e"
    by simp_all
  have bd: "binary64 ?b = ?b"
    unfolding b by (rule ease_step_double)
  have at: "?a \<le> t" using a(3,4) by linarith
  have aM: "\<bar>?a\<bar> \<le> M" using a(2) at cM tM by (simp add: abs_le_iff)
  have up: "?b \<le> ease_step t e ?b \<and> ease_step t e ?b \<le> t"
    using bd t a(4) e0 e1 ed by (rule ease_step_up)
  have r0: "0 \<le> 1 - e / 2" using e1 by simp
  have "t - ?b \<le> (t - ?a) * (1 - e / 2) + ?B"
    unfolding b using a(1) t at e0 e1 ed aM tM by (rule ease_step_rate_up)
  also have "\<dots> \<le> ((t - c) * (1 - e / 2) ^ n + 2 * ?B / e) * (1 - e / 2) + ?B"
    using rate r0 by (simp add: mult_right_mono)
  also have "\<dots> = (t - c) * (1 - e / 2) ^ Suc n + 2 * ?B / e"
    using e0 by (simp add: field_simps)
  finally have rate': "t - ?b \<le> (t - c) * (1 - e / 2) ^ Suc n + 2 * ?B / e" .
  have cb: "c \<le> ?b" using a(2,3) by linarith
  show ?case
    using bd cb up rate' by simp
qed

lemma ease_iterate_down:
  assumes c: "binary64 c = c" and t: "binary64 t = t" and tc: "t \<le> c"
    and e0: "0 < e" and e1: "e < 1" and ed: "binary64 e = e" and cM: "\<bar>c\<bar> \<le> M" and tM: "\<bar>t\<bar> \<le> M"
  shows "binary64 ((ease_step t e ^^ n) c) = (ease_step t e ^^ n) c
    \<and> (ease_step t e ^^ n) c \<le> c
    \<and> (ease_step t e ^^ Suc n) c \<le> (ease_step t e ^^ n) c
    \<and> t \<le> (ease_step t e ^^ Suc n) c
    \<and> (ease_step t e ^^ n) c - t \<le> (c - t) * (1 - e / 2) ^ n + 2 * rounding_floor M / e"
proof -
  have c': "binary64 (- c) = - c" and t': "binary64 (- t) = - t"
    using c t by (simp_all add: binary64_minus)
  have le: "- c \<le> - t" using tc by simp
  have cM': "\<bar>- c\<bar> \<le> M" and tM': "\<bar>- t\<bar> \<le> M" using cM tM by simp_all
  from ease_iterate_up [OF c' t' le e0 e1 ed cM' tM', of n]
  show ?thesis
    unfolding ease_iterate_minus by (simp add: binary64_minus)
qed

lemma ease_iterate_bounded:
  assumes c: "binary64 c = c" and t: "binary64 t = t"
    and e0: "0 < e" and e1: "e < 1" and ed: "binary64 e = e" and cM: "\<bar>c\<bar> \<le> M" and tM: "\<bar>t\<bar> \<le> M"
  shows "\<bar>(ease_step t e ^^ n) c\<bar> \<le> M
    \<and> \<bar>t - (ease_step t e ^^ n) c\<bar> \<le> \<bar>t - c\<bar> * (1 - e / 2) ^ n + 2 * rounding_floor M / e"
proof (cases "c \<le> t")
  case True
  from ease_iterate_up [OF c t True e0 e1 ed cM tM, of n] True cM tM
  show ?thesis by (simp add: abs_le_iff)
next
  case False
  then have tc: "t \<le> c" by simp
  from ease_iterate_down [OF c t tc e0 e1 ed cM tM, of n] tc cM tM
  show ?thesis by (simp add: abs_le_iff)
qed

lemma binary64_pow2_1001: "binary64 (2 ^ 1001) = 2 ^ 1001"
  by (rule binary64_representable [where r = 1 and k = 1001]) simp_all

lemma smooth64_Num:
  assumes "targetFrame s = Num t" and "currentFrame s = Num c" and "ease s = Num e"
    and cM: "\<bar>c\<bar> \<le> 2 ^ 1000" and tM: "\<bar>t\<bar> \<le> 2 ^ 1000" and e0: "0 < e" and e1: "e \<le> 1"
  shows "currentFrame (smooth64 s) = Num (ease_step t e c)"
proof -
  let ?d = "binary64 (t - c)"
  let ?i = "binary64 (?d * e)"
  have x: "\<bar>t - c\<bar> \<le> 2 ^ 1001"
    using cM tM by (simp add: abs_le_iff)
  then have "\<bar>t - c\<bar> \<le> 2 ^ 1023"
    by (rule order_trans) simp
  then have 1: "round64 (Num (t - c)) = Num ?d"
    by (rule round64_Num)
  have d: "\<bar>?d\<bar> \<le> 2 ^ 1001"
    using x binary64_pow2_1001 by (rule binary64_abs_le)
  have "\<bar>?d * e\<bar> = \<bar>?d\<bar> * e"
    using e0 by (simp add: abs_mult)
  also have "\<dots> \<le> \<bar>?d\<bar> * 1"
    using e1 by (intro mult_left_mono) simp_all
  finally have p: "\<bar>?d * e\<bar> \<le> 2 ^ 1001"
    using d by simp
  then have "\<bar>?d * e\<bar> \<le> 2 ^ 1023"
    by (rule order_trans) simp
  then have 2: "round64 (Num (?d * e)) = Num ?i"
    by (rule round64_Num)
  have i: "\<bar>?i\<bar> \<le> 2 ^ 1001"
    using p binary64_pow2_1001 by (rule binary64_abs_le)
  have "\<bar>c + ?i\<bar> \<le> 2 ^ 1000 + 2 ^ 1001"
    using cM i by (simp add: abs_le_iff)
  then have "\<bar>c + ?i\<bar> \<le> 2 ^ 1023"
    by (rule order_trans) simp
  then have 3: "round64 (Num (c + ?i)) = Num (binary64 (c + ?i))"
    by (rule round64_Num)
  have a: "js_sub64 (Num t) (Num c) = Num ?d"
    by (simp only: js_sub64_def js_sub_Num 1)
  have b: "js_mul64 (Num ?d) (Num e) = Num ?i"
    by (simp only: js_mul64_def js_mul.simps 2)
  have c: "js_add64 (Num c) (Num ?i) = Num (binary64 (c + ?i))"
    by (simp only: js_add64_def js_add.simps 3)
  show ?thesis
    by (simp add: smooth64_def assms(1-3) a b c ease_step_def)
qed

lemma smooth64_scrub [simp]:
  "targetFrame (smooth64 s) = targetFrame s"
  "ease (smooth64 s) = ease s"
  "totalFrames (smooth64 s) = totalFrames s"
  "images (smooth64 s) = images s"
  "hero_classes (smooth64 s) = hero_classes s"
  by (simp_all add: smooth64_def)

lemma loop64_scrub [simp]:
  "currentFrame (loop64 s) = currentFrame (smooth64 s)"
  "targetFrame (loop64 s) = targetFrame s"
  "ease (loop64 s) = ease s"
  "totalFrames (loop64 s) = totalFrames s"
  "images (loop64 s) = images s"
  by (simp_all add: loop64_def Let_def)

lemma loop64_iterate:
  assumes s: "targetFrame s = Num t" "currentFrame s = Num c" "ease s = Num e"
    and c: "binary64 c = c" and t: "binary64 t = t"
    and e0: "0 < e" and e1: "e < 1" and ed: "binary64 e = e"
    and cM: "\<bar>c\<bar> \<le> M" and tM: "\<bar>t\<bar> \<le> M" and M: "M \<le> 2 ^ 1000"
  shows "targetFrame ((loop64 ^^ n) s) = Num t \<and> ease ((loop64 ^^ n) s) = Num e
    \<and> currentFrame ((loop64 ^^ n) s) = Num ((ease_step t e ^^ n) c)"
proof (induction n)
  case 0
  show ?case using s by simp
next
  case (Suc n)
  have "\<bar>(ease_step t e ^^ n) c\<bar> \<le> M"
    using ease_iterate_bounded [OF c t e0 e1 ed cM tM, of n] by simp
  then have a: "\<bar>(ease_step t e ^^ n) c\<bar> \<le> 2 ^ 1000"
    using M by linarith
  have b: "\<bar>t\<bar> \<le> 2 ^ 1000" using tM M by linarith
  have e1': "e \<le> 1" using e1 by simp
  from Suc have "currentFrame (smooth64 ((loop64 ^^ n) s))
      = Num (ease_step t e ((ease_step t e ^^ n) c))"
    using a b e0 e1' by (intro smooth64_Num) simp_all
  then show ?case
    using Suc by simp
qed

lemma ease_value: "binary64 (6 / 100) = 1080863910568919 / 2 ^ 54"
proof -
  have "binary64 (6 / 100) = real_of_int (rne ((6 / 100) / 2 powi (- 5 - 52))) * 2 powi (- 5 - 52)"
    by (rule binary64_eval) simp_all
  also have "\<dots> = 1080863910568919 / 2 ^ 54"
    by (simp add: rne_def power_int_minus)
  finally show ?thesis .
qed

lemma ease_double: "binary64 (1080863910568919 / 2 ^ 54) = 1080863910568919 / 2 ^ 54"
  using binary64_idem [of "6 / 100"] by (simp only: ease_value)

lemma HeroCanvas64_ease: "ease (HeroCanvas64 n op cs) = Num (1080863910568919 / 2 ^ 54)"
proof -
  have "round64 (Num (6 / 100)) = Num (binary64 (6 / 100))"
    by (rule round64_Num) simp
  then have r: "round64 (Num (6 / 100)) = Num (1080863910568919 / 2 ^ 54)"
    by (simp only: ease_value)
  show ?thesis
    unfolding HeroCanvas64_def r by simp
qed

lemma stall_at_247:
  "ease_step 247 (1080863910568919 / 2 ^ 54) (247 - 1 / 2 ^ 42) = 247 - 1 / 2 ^ 42"
proof -
  have x: "(247 :: real) - (247 - 1 / 2 ^ 42) = 1 / 2 ^ 42"
    by simp
  have d: "binary64 (1 / 2 ^ 42) = 1 / 2 ^ 42"
    by (rule binary64_representable [where r = 1 and k = "- 42"]) (simp_all add: power_int_minus)
  have i: "binary64 (1 / 2 ^ 42 * (1080863910568919 / 2 ^ 54)) = 1080863910568919 / 2 ^ 96"
  proof -
    have "binary64 (1080863910568919 / 2 ^ 96) = 1080863910568919 / 2 ^ 96"
      by (rule binary64_representable [where r = 1080863910568919 and k = "- 96"])
        (simp_all add: power_int_minus)
    then show ?thesis by simp
  qed
  have "binary64 (247 - 1 / 2 ^ 42 + 1080863910568919 / 2 ^ 96)
      = real_of_int (rne ((247 - 1 / 2 ^ 42 + 1080863910568919 / 2 ^ 96) / 2 powi (7 - 52)))
        * 2 powi (7 - 52)"
    by (rule binary64_eval) simp_all
  also have "\<dots> = 247 - 1 / 2 ^ 42"
    by (simp add: rne_def power_int_minus)
  finally show ?thesis
    by (simp only: ease_step_def x d i)
qed

lemma increment_le:
  assumes "0 \<le> x" and "0 < e"
  shows "binary64 (binary64 x * e) \<le> 4 * x * e"
proof -
  have d0: "0 \<le> binary64 x" using assms(1) by (rule binary64_nonneg)
  have d2: "binary64 x \<le> 2 * x" using assms(1) by (rule binary64_le_double)
  have "0 \<le> binary64 x * e" using d0 assms(2) by simp
  then have "binary64 (binary64 x * e) \<le> 2 * (binary64 x * e)"
    by (rule binary64_le_double)
  also have "\<dots> \<le> 2 * ((2 * x) * e)"
    using d2 assms(2) by simp
  finally show ?thesis by simp
qed

lemma ease_step_below_247:
  assumes c: "binary64 c = c" and c0: "0 \<le> c" and c247: "c < 247"
    and e0: "0 < e" and e16: "e \<le> 1 / 16"
  shows "ease_step 247 e c \<le> 247 - 1 / 2 ^ 45"
proof -
  define i where "i = binary64 (binary64 (247 - c) * e)"
  define y where "y = c + i"
  have es: "ease_step 247 e c = binary64 y"
    by (simp add: ease_step_def y_def i_def)
  have "i \<le> 4 * (247 - c) * e"
    unfolding i_def using c247 e0 by (intro increment_le) simp_all
  also have "\<dots> \<le> 4 * (247 - c) * (1 / 16)"
    using c247 e16 by (intro mult_left_mono) simp_all
  finally have i4: "i \<le> (247 - c) / 4" by simp
  have i0: "0 \<le> i"
    unfolding i_def using c247 e0 by (intro binary64_nonneg) (simp add: binary64_nonneg)
  show ?thesis
  proof (cases "c < 128")
    case True
    then have "y \<le> 158" using i4 by (simp add: y_def)
    then have "binary64 y \<le> binary64 158" by (rule binary64_mono)
    moreover have "binary64 158 = 158"
      using binary64_of_int [of 158] by simp
    ultimately show ?thesis unfolding es by simp
  next
    case False
    then have lo: "2 powi 7 \<le> \<bar>c\<bar>" and hi: "\<bar>c\<bar> < 2 powi (7 + 1)"
      using c247 by simp_all
    define K where "K = rne (c / 2 powi (7 - 52))"
    have "(7 - 52 :: int) = - 45" by simp
    then have "(2::real) powi (7 - 52) = 2 powi (- 45)" by (rule arg_cong)
    also have "\<dots> = 1 / 2 powi 45" by (rule pow2_neg)
    finally have p45: "(2::real) powi (7 - 52) = 1 / 2 ^ 45" by simp
    have "binary64 c = real_of_int K * 2 powi (7 - 52)"
      unfolding K_def using lo hi by (rule binary64_eval) simp
    then have "c = real_of_int K * (1 / 2 ^ 45)"
      unfolding c p45 .
    then have cK: "c = real_of_int K / 2 ^ 45"
      by simp
    have "real_of_int K / 2 ^ 45 < 247"
      using c247 unfolding cK .
    then have "real_of_int K < 247 * 2 ^ 45"
      by (simp add: pos_divide_less_eq)
    then have "real_of_int K < real_of_int (247 * 2 ^ 45)" by simp
    then have "K < 247 * 2 ^ 45" by (simp only: of_int_less_iff)
    then have "K \<le> 247 * 2 ^ 45 - 1" by simp
    then have "real_of_int K \<le> real_of_int (247 * 2 ^ 45 - 1)" by (simp only: of_int_le_iff)
    then have "real_of_int K / 2 ^ 45 \<le> real_of_int (247 * 2 ^ 45 - 1) / 2 ^ 45"
      by (intro divide_right_mono) simp_all
    also have "real_of_int (247 * 2 ^ 45 - 1) / 2 ^ 45 = 247 - 1 / 2 ^ 45"
      by simp
    finally have "c \<le> 247 - 1 / 2 ^ 45"
      unfolding cK .
    then have y3: "y \<le> 247 - 3 / 4 * (1 / 2 ^ 45)"
      using i4 by (simp add: y_def)
    have y128: "128 \<le> y" using False i0 by (simp add: y_def)
    have ylo: "2 powi 7 \<le> \<bar>y\<bar>" and yhi: "\<bar>y\<bar> < 2 powi (7 + 1)"
      using y128 y3 by simp_all
    have yv: "binary64 y = real_of_int (rne (y / 2 powi (7 - 52))) * 2 powi (7 - 52)"
      using ylo yhi by (rule binary64_eval) simp
    have "y * 2 ^ 45 \<le> (247 - 3 / 4 * (1 / 2 ^ 45)) * 2 ^ 45"
      using y3 by (intro mult_right_mono) simp_all
    moreover have "(247 - 3 / 4 * (1 / 2 ^ 45)) * 2 ^ 45 < real_of_int (247 * 2 ^ 45) - (1 / 2 :: real)"
      by simp
    ultimately have "y * 2 ^ 45 < real_of_int (247 * 2 ^ 45) - 1 / 2"
      by (rule le_less_trans)
    moreover have "y / 2 powi (7 - 52) = y * 2 ^ 45"
      unfolding p45 by simp
    ultimately have "rne (y / 2 powi (7 - 52)) \<le> 247 * 2 ^ 45 - 1"
      by (simp only: rne_below)
    then have "real_of_int (rne (y / 2 powi (7 - 52))) \<le> real_of_int (247 * 2 ^ 45 - 1)"
      by (simp only: of_int_le_iff)
    then have "real_of_int (rne (y / 2 powi (7 - 52))) * 2 powi (7 - 52)
        \<le> real_of_int (247 * 2 ^ 45 - 1) * 2 powi (7 - 52)"
      by (intro mult_right_mono) simp_all
    also have "\<dots> = 247 - 1 / 2 ^ 45"
      unfolding p45 by simp
    finally show ?thesis
      unfolding es yv .
  qed
qed

lemma never_reaches_247:
  assumes c: "binary64 c = c" and c0: "0 \<le> c" and c247: "c \<le> 247 - 1 / 2 ^ 45"
    and e0: "0 < e" and e16: "e \<le> 1 / 16" and ed: "binary64 e = e"
  shows "binary64 ((ease_step 247 e ^^ n) c) = (ease_step 247 e ^^ n) c
    \<and> 0 \<le> (ease_step 247 e ^^ n) c
    \<and> (ease_step 247 e ^^ n) c \<le> 247 - 1 / 2 ^ 45"
proof (induction n)
  case 0
  show ?case using c c0 c247 by simp
next
  case (Suc n)
  let ?a = "(ease_step 247 e ^^ n) c"
  from Suc have a: "binary64 ?a = ?a" "0 \<le> ?a" "?a \<le> 247 - 1 / 2 ^ 45" by simp_all
  have lt: "?a < 247" using a(3) by simp
  have t: "binary64 247 = 247" using binary64_of_int [of 247] by simp
  have e1: "e < 1" using e16 by simp
  have "?a \<le> ease_step 247 e ?a"
    using ease_step_up [OF a(1) t _ e0 e1 ed] lt by simp
  moreover have "ease_step 247 e ?a \<le> 247 - 1 / 2 ^ 45"
    using a(1,2) lt e0 e16 by (rule ease_step_below_247)
  ultimately show ?case
    using a(2) by (simp add: ease_step_double)
qed

lemma rounding_floor_pos: "0 \<le> M \<Longrightarrow> 0 < rounding_floor M"
proof -
  assume "0 \<le> M"
  moreover have "0 < (2::real) powi (- 1075)" by (rule pow2_pos)
  ultimately show ?thesis by (simp add: rounding_floor_def add_nonneg_pos)
qed

lemma onScroll64_scrub [simp]:
  "currentFrame (onScroll64 s m) = currentFrame s"
  "ease (onScroll64 s m) = ease s"
  "totalFrames (onScroll64 s m) = totalFrames s"
  by (simp_all add: onScroll64_def)

lemma ln_494000: "ln (494000 :: real) < 15"
proof -
  have "(5 / 2 :: real) \<le> exp 1"
    using exp_lower_Taylor_quadratic [of "1::real"] by simp
  then have "(5 / 2 :: real) ^ 15 \<le> exp 1 ^ 15"
    by (intro power_mono) simp_all
  also have "exp (1::real) ^ 15 = exp 15"
    using exp_of_nat_mult [of 15 "1::real"] by simp
  finally have "(5 / 2 :: real) ^ 15 \<le> exp 15" .
  moreover have "(494000::real) < (5 / 2) ^ 15"
    by (simp add: power_divide)
  ultimately have "(494000::real) < exp 15"
    by (rule less_le_trans [rotated])
  then have "ln (494000::real) < ln (exp 15)"
    by (subst ln_less_cancel_iff) simp_all
  then show ?thesis
    by simp
qed

lemma rounding_floor_247: "rounding_floor 247 \<le> 250 / 2 ^ 53"
proof -
  have "(2::real) powi (- 1075) \<le> 2 powi (- 53)"
    by (rule pow2_mono) simp
  also have "(2::real) powi (- 53) = 1 / 2 powi 53"
    by (rule pow2_neg)
  finally have "(2::real) powi (- 1075) \<le> 1 / 2 ^ 53"
    by simp
  then show ?thesis
    by (simp add: rounding_floor_def)
qed

lemma double_247: "binary64 247 = 247"
  using binary64_of_int [of 247] by simp

text \<open>
  C3 (as amended). Let the target \<open>t\<close> and the position \<open>c\<close> be finite binary64 values of
  magnitude at most \<open>M\<close>, and the ease \<open>e\<close> a binary64 value in (0, 1). With the
  target fixed, after \<open>n\<close> runs of the loop the position is the \<open>n\<close>-fold smoothing update of
  \<open>c\<close>. Each run moves it toward the target and never past it (from below when c is at most
  t, from above when t is at most c). For every \<open>eps\<close> that is at least the rounding floor
  4 * (M / 2^53 + 3 * 2^-1075) / e, the position is within \<open>eps\<close> of the target at every \<open>n\<close>
  greater than ln(2 * |t - c| / eps) / (e / 2), that is after the order of log(1/eps)/e runs.
\<close>

theorem smoothing_converges:
  assumes "targetFrame s = Num t" and "currentFrame s = Num c" and "ease s = Num e"
    and "binary64 t = t" and "binary64 c = c"
    and "\<bar>t\<bar> \<le> M" and "\<bar>c\<bar> \<le> M" and "M \<le> 2 ^ 1000"
    and "0 < e" and "e < 1" and "binary64 e = e"
  shows "targetFrame ((loop64 ^^ n) s) = Num t
    \<and> currentFrame ((loop64 ^^ n) s) = Num ((ease_step t e ^^ n) c)
    \<and> (c \<le> t \<longrightarrow>
          js_le (currentFrame ((loop64 ^^ n) s)) (currentFrame ((loop64 ^^ Suc n) s))
        \<and> js_le (currentFrame ((loop64 ^^ Suc n) s)) (Num t))
    \<and> (t \<le> c \<longrightarrow>
          js_le (Num t) (currentFrame ((loop64 ^^ Suc n) s))
        \<and> js_le (currentFrame ((loop64 ^^ Suc n) s)) (currentFrame ((loop64 ^^ n) s)))
    \<and> (4 * rounding_floor M / e \<le> eps \<and> ln (2 * \<bar>t - c\<bar> / eps) < real n * (e / 2) \<longrightarrow>
          js_lt (Num (t - eps)) (currentFrame ((loop64 ^^ n) s))
        \<and> js_lt (currentFrame ((loop64 ^^ n) s)) (Num (t + eps)))"
proof -
  note it = loop64_iterate [OF assms(1-3) assms(5) assms(4) assms(9-11) assms(7) assms(6) assms(8)]
  have cur: "currentFrame ((loop64 ^^ k) s) = Num ((ease_step t e ^^ k) c)" for k
    using it [of k] by simp
  have tgt: "targetFrame ((loop64 ^^ n) s) = Num t"
    using it [of n] by simp
  have up: "c \<le> t \<longrightarrow>
      js_le (currentFrame ((loop64 ^^ n) s)) (currentFrame ((loop64 ^^ Suc n) s))
      \<and> js_le (currentFrame ((loop64 ^^ Suc n) s)) (Num t)"
  proof
    assume ct: "c \<le> t"
    from ease_iterate_up [OF assms(5) assms(4) ct assms(9-11) assms(7) assms(6), of n]
    have "(ease_step t e ^^ n) c \<le> (ease_step t e ^^ Suc n) c"
      and "(ease_step t e ^^ Suc n) c \<le> t"
      by blast+
    then show "js_le (currentFrame ((loop64 ^^ n) s)) (currentFrame ((loop64 ^^ Suc n) s))
      \<and> js_le (currentFrame ((loop64 ^^ Suc n) s)) (Num t)"
      unfolding cur by (simp only: js_le.simps)
  qed
  have down: "t \<le> c \<longrightarrow>
      js_le (Num t) (currentFrame ((loop64 ^^ Suc n) s))
      \<and> js_le (currentFrame ((loop64 ^^ Suc n) s)) (currentFrame ((loop64 ^^ n) s))"
  proof
    assume tc: "t \<le> c"
    from ease_iterate_down [OF assms(5) assms(4) tc assms(9-11) assms(7) assms(6), of n]
    have "(ease_step t e ^^ Suc n) c \<le> (ease_step t e ^^ n) c"
      and "t \<le> (ease_step t e ^^ Suc n) c"
      by blast+
    then show "js_le (Num t) (currentFrame ((loop64 ^^ Suc n) s))
      \<and> js_le (currentFrame ((loop64 ^^ Suc n) s)) (currentFrame ((loop64 ^^ n) s))"
      unfolding cur by (simp only: js_le.simps)
  qed
  have near: "4 * rounding_floor M / e \<le> eps \<and> ln (2 * \<bar>t - c\<bar> / eps) < real n * (e / 2) \<longrightarrow>
      js_lt (Num (t - eps)) (currentFrame ((loop64 ^^ n) s))
      \<and> js_lt (currentFrame ((loop64 ^^ n) s)) (Num (t + eps))"
  proof
    assume h: "4 * rounding_floor M / e \<le> eps \<and> ln (2 * \<bar>t - c\<bar> / eps) < real n * (e / 2)"
    let ?x = "(ease_step t e ^^ n) c"
    have M0: "0 \<le> M" using assms(6) by linarith
    have "0 < 4 * rounding_floor M / e"
      using rounding_floor_pos [OF M0] assms(9) by simp
    then have eps: "0 < eps" using h by linarith
    have "4 * rounding_floor M / e = 2 * (2 * rounding_floor M / e)" by simp
    then have fl: "2 * rounding_floor M / e \<le> eps / 2" using h by linarith
    have "\<bar>t - c\<bar> / (eps / 2) = 2 * \<bar>t - c\<bar> / eps" by simp
    moreover have "ln (2 * \<bar>t - c\<bar> / eps) < real n * (e / 2)" using h by (rule conjunct2)
    ultimately have "ln (\<bar>t - c\<bar> / (eps / 2)) < real n * (e / 2)" by (simp only:)
    then have "\<bar>t - c\<bar> * (1 - e / 2) ^ n < eps / 2"
      using assms(9,10) eps by (intro within_eps) simp_all
    moreover have "\<bar>t - ?x\<bar> \<le> \<bar>t - c\<bar> * (1 - e / 2) ^ n + 2 * rounding_floor M / e"
      using ease_iterate_bounded [OF assms(5) assms(4) assms(9-11) assms(7) assms(6), of n] by simp
    ultimately have "\<bar>t - ?x\<bar> < eps" using fl by linarith
    then have "t - eps < ?x" and "?x < t + eps" by (simp_all add: abs_less_iff)
    then show "js_lt (Num (t - eps)) (currentFrame ((loop64 ^^ n) s))
      \<and> js_lt (currentFrame ((loop64 ^^ n) s)) (Num (t + eps))"
      unfolding cur by (simp only: js_lt.simps)
  qed
  show ?thesis
    using tgt cur [of n] up down near by blast
qed

theorem smoothing_converges_witness:
  "js_lt (Num (247 - 1 / 1000))
      (currentFrame ((loop64 ^^ 600) ((HeroCanvas64 248 (Num 0) [])\<lparr>targetFrame := Num 247\<rparr>)))
   \<and> js_lt (currentFrame ((loop64 ^^ 600) ((HeroCanvas64 248 (Num 0) [])\<lparr>targetFrame := Num 247\<rparr>)))
        (Num (247 + 1 / 1000))
   \<and> js_le (currentFrame ((loop64 ^^ 600) ((HeroCanvas64 248 (Num 0) [])\<lparr>targetFrame := Num 247\<rparr>)))
        (currentFrame ((loop64 ^^ Suc 600) ((HeroCanvas64 248 (Num 0) [])\<lparr>targetFrame := Num 247\<rparr>)))
   \<and> js_le (currentFrame ((loop64 ^^ Suc 600) ((HeroCanvas64 248 (Num 0) [])\<lparr>targetFrame := Num 247\<rparr>)))
        (Num 247)
   \<and> js_le (Num 0)
        (currentFrame ((loop64 ^^ Suc 600) ((HeroCanvas64 248 (Num 0) [])\<lparr>currentFrame := Num 247\<rparr>)))
   \<and> js_le (currentFrame ((loop64 ^^ Suc 600) ((HeroCanvas64 248 (Num 0) [])\<lparr>currentFrame := Num 247\<rparr>)))
        (currentFrame ((loop64 ^^ 600) ((HeroCanvas64 248 (Num 0) [])\<lparr>currentFrame := Num 247\<rparr>)))"
proof -
  let ?E = "1080863910568919 / 2 ^ 54 :: real"
  let ?s = "(HeroCanvas64 248 (Num 0) [])\<lparr>targetFrame := Num 247\<rparr>"
  let ?r = "(HeroCanvas64 248 (Num 0) [])\<lparr>currentFrame := Num 247\<rparr>"
  have t: "targetFrame ?s = Num 247" and c: "currentFrame ?s = Num 0" and e: "ease ?s = Num ?E"
    by (simp_all add: HeroCanvas64_ease)
  have t': "targetFrame ?r = Num 0" and c': "currentFrame ?r = Num 247" and e': "ease ?r = Num ?E"
    by (simp_all add: HeroCanvas64_ease)
  have d0: "binary64 0 = 0" by simp
  have b1: "\<bar>247 :: real\<bar> \<le> 247" and b0: "\<bar>0 :: real\<bar> \<le> 247" and M: "(247 :: real) \<le> 2 ^ 1000"
    by simp_all
  have e0: "0 < ?E" and e1: "?E < 1"
    by simp_all
  have "4 * rounding_floor 247 / ?E \<le> 4 * (250 / 2 ^ 53) / ?E"
    using rounding_floor_247 by (intro divide_right_mono mult_left_mono) simp_all
  also have "4 * (250 / 2 ^ 53) / ?E \<le> 1 / 1000"
    by simp
  finally have fl: "4 * rounding_floor 247 / ?E \<le> 1 / 1000" .
  have "(15 :: real) \<le> real 600 * (?E / 2)"
    by simp
  then have "ln (494000 :: real) < real 600 * (?E / 2)"
    using ln_494000 by linarith
  moreover have "2 * \<bar>247 - 0 :: real\<bar> / (1 / 1000) = 494000"
    by simp
  ultimately have lg: "ln (2 * \<bar>247 - 0 :: real\<bar> / (1 / 1000)) < real 600 * (?E / 2)"
    by (simp only:)
  have up: "(0 :: real) \<le> 247" by simp
  from smoothing_converges [OF t c e double_247 d0 b1 b0 M e0 e1 ease_double, of 600 "1 / 1000"] fl lg up
  have a: "js_lt (Num (247 - 1 / 1000)) (currentFrame ((loop64 ^^ 600) ?s))
    \<and> js_lt (currentFrame ((loop64 ^^ 600) ?s)) (Num (247 + 1 / 1000))
    \<and> js_le (currentFrame ((loop64 ^^ 600) ?s)) (currentFrame ((loop64 ^^ Suc 600) ?s))
    \<and> js_le (currentFrame ((loop64 ^^ Suc 600) ?s)) (Num 247)"
    by blast
  from smoothing_converges [OF t' c' e' d0 double_247 b0 b1 M e0 e1 ease_double, of 600] up
  have b: "js_le (Num 0) (currentFrame ((loop64 ^^ Suc 600) ?r))
    \<and> js_le (currentFrame ((loop64 ^^ Suc 600) ?r)) (currentFrame ((loop64 ^^ 600) ?r))"
    by blast
  show ?thesis
    using a b by blast
qed

lemma stays_below_247:
  assumes "targetFrame s = Num 247" and "currentFrame s = Num 0"
    and "ease s = Num (1080863910568919 / 2 ^ 54)"
  shows "\<exists>x. currentFrame ((loop64 ^^ n) s) = Num x \<and> 0 \<le> x \<and> x \<le> 247 - 1 / 2 ^ 45"
proof -
  let ?E = "1080863910568919 / 2 ^ 54 :: real"
  have d0: "binary64 0 = 0" by simp
  have b1: "\<bar>247 :: real\<bar> \<le> 247" and b0: "\<bar>0 :: real\<bar> \<le> 247" and M: "(247 :: real) \<le> 2 ^ 1000"
    by simp_all
  have e0: "0 < ?E" and e1: "?E < 1" and e16: "?E \<le> 1 / 16"
    by simp_all
  have lo: "(0 :: real) \<le> 0" and hi: "(0 :: real) \<le> 247 - 1 / 2 ^ 45"
    by simp_all
  from loop64_iterate [OF assms d0 double_247 e0 e1 ease_double b0 b1 M, of n]
  have "currentFrame ((loop64 ^^ n) s) = Num ((ease_step 247 ?E ^^ n) 0)"
    by simp
  moreover from never_reaches_247 [OF d0 lo hi e0 e16 ease_double, of n]
  have "0 \<le> (ease_step 247 ?E ^^ n) 0 \<and> (ease_step 247 ?E ^^ n) 0 \<le> 247 - 1 / 2 ^ 45"
    by simp
  ultimately show ?thesis
    by blast
qed

lemma stalled_tick:
  assumes "targetFrame s = Num 247" and "currentFrame s = Num (247 - 1 / 2 ^ 42)"
    and "ease s = Num (1080863910568919 / 2 ^ 54)"
  shows "currentFrame (loop64 s) = Num (247 - 1 / 2 ^ 42)"
proof -
  have "currentFrame (smooth64 s)
      = Num (ease_step 247 (1080863910568919 / 2 ^ 54) (247 - 1 / 2 ^ 42))"
    using assms by (intro smooth64_Num) simp_all
  then show ?thesis
    by (simp only: loop64_scrub stall_at_247)
qed

text \<open>
  C3 as the specification states it (the distance falls below any positive \<open>eps\<close>) does not
  hold of script.js. With 248 frames, target 247 and start 0, the position is still not
  within 2^-46 of the target after 100000 runs: it never exceeds 247 - 2^-45. At
  247 - 2^-42 the update is smaller than half the spacing of the binary64 values there, and
  a run of the loop leaves the position where it is.
\<close>

theorem smoothing_stalls:
  "\<not> js_lt (Num (247 - 1 / 2 ^ 46))
        (currentFrame ((loop64 ^^ 100000) ((HeroCanvas64 248 (Num 0) [])\<lparr>targetFrame := Num 247\<rparr>)))
   \<and> currentFrame (loop64 ((HeroCanvas64 248 (Num 0) [])
        \<lparr>targetFrame := Num 247, currentFrame := Num (247 - 1 / 2 ^ 42)\<rparr>))
       = Num (247 - 1 / 2 ^ 42)
   \<and> targetFrame (loop64 ((HeroCanvas64 248 (Num 0) [])
        \<lparr>targetFrame := Num 247, currentFrame := Num (247 - 1 / 2 ^ 42)\<rparr>))
       = Num 247"
proof -
  let ?s = "(HeroCanvas64 248 (Num 0) [])\<lparr>targetFrame := Num 247\<rparr>"
  let ?q = "(HeroCanvas64 248 (Num 0) [])\<lparr>targetFrame := Num 247, currentFrame := Num (247 - 1 / 2 ^ 42)\<rparr>"
  have t: "targetFrame ?s = Num 247" and c: "currentFrame ?s = Num 0"
    and e: "ease ?s = Num (1080863910568919 / 2 ^ 54)"
    by (simp_all add: HeroCanvas64_ease)
  from stays_below_247 [OF t c e, of 100000] obtain x
    where x: "currentFrame ((loop64 ^^ 100000) ?s) = Num x" "x \<le> 247 - 1 / 2 ^ 45"
    by blast
  have "(247 :: real) - 1 / 2 ^ 45 < 247 - 1 / 2 ^ 46"
    by simp
  then have "\<not> 247 - 1 / 2 ^ 46 < x"
    using x(2) by linarith
  then have a: "\<not> js_lt (Num (247 - 1 / 2 ^ 46)) (currentFrame ((loop64 ^^ 100000) ?s))"
    unfolding x(1) js_lt.simps .
  have t': "targetFrame ?q = Num 247" and c': "currentFrame ?q = Num (247 - 1 / 2 ^ 42)"
    and e': "ease ?q = Num (1080863910568919 / 2 ^ 54)"
    by (simp_all add: HeroCanvas64_ease)
  have b: "currentFrame (loop64 ?q) = Num (247 - 1 / 2 ^ 42)"
    using t' c' e' by (rule stalled_tick)
  have c2: "targetFrame (loop64 ?q) = Num 247"
    using t' by (simp only: loop64_scrub)
  show ?thesis
    using a b c2 by blast
qed




end
